theory Spec2Isabelle
  imports Complex_Main "HOL-Library.Word" "HOL-Library.Multiset" "HOL-Library.Monad_Syntax"
begin

text \<open>
  The parallel kernel layer of the benchmark (\<^verbatim>\<open>kernels.c\<close>: the partitioner
  \<open>row_range\<close> and the kernels \<open>mv_mt\<close>, \<open>mm_mt\<close>, \<open>dt_mt\<close>, \<open>ax_mt\<close> with their
  workers) and the allocators of \<^verbatim>\<open>matrix.c\<close> (\<open>m_alloc\<close>, \<open>v_alloc\<close>), embedded as
  HOL functions. The definitions come first, the proofs after them.
\<close>

section \<open>Machine types\<close>

text \<open>
  The kernels are C on an LP64 target: \<open>size_t\<close> is an unsigned 64-bit word, \<open>int\<close> a
  32-bit word read in two's complement (\<open>sint\<close>, \<open>\<le>s\<close>, \<open><s\<close>). A conversion from
  \<open>int\<close> to \<open>size_t\<close> sign-extends (\<open>scast\<close>), the conversion \<open>(int)rem\<close> of a
  \<open>size_t\<close> keeps the low 32 bits (\<open>ucast\<close>).
\<close>

type_synonym size_t = "64 word"
type_synonym cint = "32 word"

section \<open>The partitioner\<close>

text \<open>
  \<^verbatim>\<open>
  static void row_range(size_t nrows, int tid, int nt, size_t *i0, size_t *i1) {
      size_t base = nrows / (size_t)nt;
      size_t rem  = nrows % (size_t)nt;
      size_t start = (size_t)tid * base + (size_t)((tid < (int)rem) ? tid : rem);
      size_t extra = (tid < (int)rem) ? 1u : 0u;
      size_t end = start + base + extra;
      *i0 = start; *i1 = end;
  }
  \<close>
  The two output parameters are returned as a pair. All arithmetic is that of the
  machine words, so every wrap-around of the source is in the model.
\<close>

definition row_range :: "size_t \<Rightarrow> cint \<Rightarrow> cint \<Rightarrow> size_t \<times> size_t" where
  "row_range nrows tid ntw =
     (let base = nrows div scast ntw;
          rem = nrows mod scast ntw;
          start = scast tid * base + (if tid <s ucast rem then scast tid else rem);
          extra = (if tid <s ucast rem then 1 else 0);
          end = start + base + extra
      in (start, end))"

text \<open>The bounds of worker \<open>t\<close> as natural numbers, for the loops that count in them.\<close>

definition range_lo :: "size_t \<Rightarrow> cint \<Rightarrow> nat \<Rightarrow> nat" where
  "range_lo nrows ntw t = unat (fst (row_range nrows (word_of_nat t) ntw))"

definition range_hi :: "size_t \<Rightarrow> cint \<Rightarrow> nat \<Rightarrow> nat" where
  "range_hi nrows ntw t = unat (snd (row_range nrows (word_of_nat t) ntw))"


text \<open>
  The cut points of the partition, as the source computes them when nothing wraps:
  worker \<open>t\<close> starts at \<open>t * base + min t rem\<close>. This is a device of the
  proofs, not a function of the program; \<open>row_range_nat\<close> below shows that the machine
  arithmetic of \<open>row_range\<close> computes exactly these numbers.
\<close>

definition boundary :: "nat \<Rightarrow> nat \<Rightarrow> nat \<Rightarrow> nat" where
  "boundary r n k = k * (r div n) + min k (r mod n)"

section \<open>Matrices and vectors\<close>

text \<open>
  \<open>Mat\<close> and \<open>Vec\<close> are the structs of \<^verbatim>\<open>matrix.h\<close>. The pointer \<open>data\<close> is
  \<open>None\<close> when it is \<^verbatim>\<open>NULL\<close> and otherwise holds the contents of the buffer it
  points to, row-major. The element type \<open>'a\<close> stands for \<^verbatim>\<open>double\<close>: the kernels
  only need its \<open>0\<close>, \<open>+\<close> and \<open>*\<close>, and no law of arithmetic is assumed unless a
  theorem says so, so what is proved for every \<open>'a\<close> holds for IEEE doubles too.
\<close>

record 'a Mat =
  rows :: size_t
  cols :: size_t
  data :: "'a list option"

record 'a Vec =
  len :: size_t
  data :: "'a list option"

text \<open>
  \<^verbatim>\<open>calloc(nmemb, size)\<close>: \<open>ok\<close> says whether the allocator finds the memory. A
  request whose byte count \<open>nmemb * size\<close> does not fit \<open>size_t\<close> is refused by
  \<^verbatim>\<open>calloc\<close> itself. A block that is returned is zero-filled, and the all-zero bytes
  of a \<^verbatim>\<open>double\<close> are \<open>0.0\<close>.
\<close>

definition calloc :: "bool \<Rightarrow> size_t \<Rightarrow> nat \<Rightarrow> ('a::zero) list option" where
  "calloc ok nmemb sz =
     (if ok \<and> unat nmemb * sz < 2 ^ 64 then Some (replicate (unat nmemb) 0) else None)"

text \<open>
  \<^verbatim>\<open>
  Mat m_alloc(size_t r, size_t c) {
      Mat m = {0};
      m.rows = r; m.cols = c;
      if (r == 0 || c == 0) return m;
      m.data = (double*)calloc(r * c, sizeof(double));
      if (!m.data) { m.rows = m.cols = 0; }
      return m;
  }
  \<close>
  The product \<open>r * c\<close> is a product of 64-bit words: it wraps.
\<close>

definition m_alloc :: "bool \<Rightarrow> size_t \<Rightarrow> size_t \<Rightarrow> ('a::zero) Mat" where
  "m_alloc ok r c =
     (let m = \<lparr>rows = r, cols = c, data = None\<rparr> in
      if r = 0 \<or> c = 0 then m
      else let m = m\<lparr>Mat.data := calloc ok (r * c) 8\<rparr> in
           if Mat.data m = None then m\<lparr>rows := 0, cols := 0\<rparr> else m)"

definition v_alloc :: "bool \<Rightarrow> size_t \<Rightarrow> ('a::zero) Vec" where
  "v_alloc ok n =
     (let v = \<lparr>len = n, data = None\<rparr> in
      if n = 0 then v
      else let v = v\<lparr>Vec.data := calloc ok n 8\<rparr> in
           if Vec.data v = None then v\<lparr>len := 0\<rparr> else v)"

text \<open>
  A matrix or vector whose buffer is present and is an array of exactly \<open>rows * cols\<close>
  (resp. \<open>len\<close>) doubles inside the 64-bit address space. The kernels index the buffers
  by the dimensions without a check, so outside these predicates the C code has no
  defined behaviour.
\<close>

definition mat_ok :: "'a Mat \<Rightarrow> bool" where
  "mat_ok M =
     (case Mat.data M of None \<Rightarrow> False
      | Some b \<Rightarrow> length b = unat (rows M) * unat (cols M) \<and> 8 * length b < 2 ^ 64)"

definition vec_ok :: "'a Vec \<Rightarrow> bool" where
  "vec_ok v =
     (case Vec.data v of None \<Rightarrow> False
      | Some b \<Rightarrow> length b = unat (len v) \<and> 8 * length b < 2 ^ 64)"

section \<open>The environment of a kernel call\<close>

text \<open>
  What a call cannot decide itself: whether the two \<^verbatim>\<open>calloc\<close> calls for the thread
  handles and the job descriptors succeed, whether \<^verbatim>\<open>pthread_create\<close> succeeds for
  worker \<open>t\<close>, and which value of the volatile flag \<^verbatim>\<open>g_stop\<close> worker \<open>t\<close> reads at
  the head of the iteration for row \<open>i\<close>.
\<close>

record env =
  ths_ok :: bool
  jobs_ok :: bool
  create_ok :: "nat \<Rightarrow> bool"
  g_stop :: "nat \<Rightarrow> nat \<Rightarrow> bool"

text \<open>No allocation fails, every thread starts, and no worker ever sees the flag set.\<close>

definition fault_free :: "env \<Rightarrow> bool" where
  "fault_free e = (ths_ok e \<and> jobs_ok e \<and> (\<forall>t. create_ok e t) \<and> (\<forall>t i. \<not> g_stop e t i))"

record KCfg =
  nt :: cint
  tile :: cint

section \<open>Loops\<close>

text \<open>
  The three loop shapes of the kernels. Counters are \<open>size_t\<close> in the source and natural
  numbers here: a counter never passes its bound, and a bound is a dimension, a range end
  or (in the stepped loop) a dimension plus a tile edge below \<open>2^31\<close>; the lemmas
  \<open>index_fits\<close> and \<open>block_start_fits\<close> bound them for the buffers the kernels work on.

  \<^verbatim>\<open>for (k = i; k < n; k++) body\<close>
\<close>

function for_loop :: "(nat \<Rightarrow> 's \<Rightarrow> 's) \<Rightarrow> nat \<Rightarrow> nat \<Rightarrow> 's \<Rightarrow> 's" where
  "for_loop body i n s = (if i < n then for_loop body (Suc i) n (body i s) else s)"
  by pat_completeness auto
termination
  by (relation "measure (\<lambda>(body, i, n, s). n - i)") auto

declare for_loop.simps [simp del]

text \<open>\<^verbatim>\<open>for (i = i0; i < i1; i++) { if (g_stop) break; body }\<close>\<close>

function rows_loop :: "(nat \<Rightarrow> bool) \<Rightarrow> (nat \<Rightarrow> 's \<Rightarrow> 's) \<Rightarrow> nat \<Rightarrow> nat \<Rightarrow> 's \<Rightarrow> 's" where
  "rows_loop stop body i i1 s =
     (if i < i1 then (if stop i then s else rows_loop stop body (Suc i) i1 (body i s)) else s)"
  by pat_completeness auto
termination
  by (relation "measure (\<lambda>(stop, body, i, i1, s). i1 - i)") auto

declare rows_loop.simps [simp del]

text \<open>
  \<^verbatim>\<open>for (jj = j; jj < n; jj += T) body\<close>. The source runs it only with \<open>T > 0\<close>; the
  test \<open>0 < T\<close> makes the function total.
\<close>

function step_loop :: "nat \<Rightarrow> (nat \<Rightarrow> 's \<Rightarrow> 's) \<Rightarrow> nat \<Rightarrow> nat \<Rightarrow> 's \<Rightarrow> 's" where
  "step_loop T body j n s =
     (if j < n \<and> 0 < T then step_loop T body (j + T) n (body j s) else s)"
  by pat_completeness auto
termination
  by (relation "measure (\<lambda>(T, body, j, n, s). n - j)") auto

declare step_loop.simps [simp del]

text \<open>
  The thread-creation loop: the final value of \<open>nt\<close>, which is \<open>t\<close> at the first
  \<^verbatim>\<open>pthread_create\<close> that fails.
  \<^verbatim>\<open>for (t = 0; t < nt; t++) { jobs[t] = ...; if (pthread_create(...) != 0) { nt = t; break; } }\<close>
\<close>

function spawn :: "(nat \<Rightarrow> bool) \<Rightarrow> nat \<Rightarrow> nat \<Rightarrow> nat" where
  "spawn ok t n = (if t < n then (if ok t then spawn ok (Suc t) n else t) else n)"
  by pat_completeness auto
termination
  by (relation "measure (\<lambda>(ok, t, n). n - t)") auto

declare spawn.simps [simp del]

text \<open>
  The started workers run concurrently and are joined. A worker writes only the cells of
  its own range and reads, besides those, only the inputs, which no worker writes (the
  output buffer is taken not to overlap an input buffer). So every interleaving leaves
  the same memory, and the model runs the workers one after the other, in index order;
  the lemmas \<open>mv_worker_only_on\<close>, \<open>ax_worker_only_on\<close>, \<open>mm_worker_only_on\<close> and
  \<open>workers_any_order\<close> show that a worker touches only the cells of its own range and that
  any other order of the workers gives the same buffer.
\<close>

definition run_workers :: "(nat \<Rightarrow> 's \<Rightarrow> 's) \<Rightarrow> nat \<Rightarrow> 's \<Rightarrow> 's" where
  "run_workers w started s = fold w [0..<started] s"

text \<open>
  What justifies that: \<open>only_on S f\<close> says that the step \<open>f\<close> on a buffer keeps its
  length, leaves every cell outside \<open>S\<close> as it is, and writes into the cells of \<open>S\<close>
  values that depend on the cells of \<open>S\<close> alone. Steps on disjoint sets of cells
  commute. This is a device of the proofs.
\<close>

definition only_on :: "nat set \<Rightarrow> ('a list \<Rightarrow> 'a list) \<Rightarrow> bool" where
  "only_on S f =
     (\<forall>c. length (f c) = length c \<and>
          (\<forall>p < length c. p \<notin> S \<longrightarrow> f c ! p = c ! p) \<and>
          (\<forall>c'. length c' = length c \<and> (\<forall>p \<in> S. p < length c \<longrightarrow> c' ! p = c ! p) \<longrightarrow>
                (\<forall>p \<in> S. p < length c \<longrightarrow> f c' ! p = f c ! p)))"

text \<open>\<open>nt = cfg.nt <= 0 ? 1 : cfg.nt\<close>\<close>

definition coerce_nt :: "cint \<Rightarrow> cint" where
  "coerce_nt n = (if n \<le>s 0 then 1 else n)"

section \<open>Matrix-vector product\<close>

text \<open>
  \<^verbatim>\<open>
  for (size_t i = i0; i < i1; i++) {
      if (g_stop) break;
      double sum = 0.0;
      const double *row = &j->A->data[i * n];
      for (size_t k = 0; k < n; k++) sum += row[k] * j->x->data[k];
      j->y->data[i] = sum;
  }
  \<close>
  The worker is a function of the contents of the output buffer.
\<close>

definition mv_row :: "('a::{zero,plus,times}) list \<Rightarrow> 'a list \<Rightarrow> nat \<Rightarrow> nat \<Rightarrow> 'a" where
  "mv_row a xb n i = for_loop (\<lambda>k sum. sum + a ! (i * n + k) * xb ! k) 0 n 0"

definition mv_worker ::
  "(nat \<Rightarrow> bool) \<Rightarrow> ('a::{zero,plus,times}) Mat \<Rightarrow> 'a Vec \<Rightarrow> cint \<Rightarrow> cint \<Rightarrow> 'a list \<Rightarrow> 'a list" where
  "mv_worker stop A x tid ntw yb =
     (let (i0, i1) = row_range (rows A) tid ntw;
          n = unat (cols A)
      in rows_loop stop
           (\<lambda>i yb. yb[i := mv_row (the (Mat.data A)) (the (Vec.data x)) n i])
           (unat i0) (unat i1) yb)"

text \<open>
  \<^verbatim>\<open>
  int mv_mt(const Mat *A, const Vec *x, Vec *y, KCfg cfg) {
      if (!A || !x || !y || !A->data || !x->data || !y->data) return -1;
      if (A->cols != x->len || A->rows != y->len) return -1;
      int nt = cfg.nt <= 0 ? 1 : cfg.nt;
      pthread_t *ths = calloc(...); MVJob *jobs = calloc(...);
      if (!ths || !jobs) { free(ths); free(jobs); return -1; }
      ... create, join ...
      return 0;
  }
  \<close>
  A pointer argument is \<open>None\<close> when it is \<^verbatim>\<open>NULL\<close>. The result is the returned
  status and the state of \<open>*y\<close> after the call.
\<close>

definition mv_mt ::
  "env \<Rightarrow> ('a::{zero,plus,times}) Mat option \<Rightarrow> 'a Vec option \<Rightarrow> 'a Vec option \<Rightarrow> KCfg
     \<Rightarrow> int \<times> 'a Vec option" where
  "mv_mt e Ap xp yp cfg =
     (if Ap = None \<or> xp = None \<or> yp = None \<or> Mat.data (the Ap) = None
         \<or> Vec.data (the xp) = None \<or> Vec.data (the yp) = None then (- 1, yp)
      else let A = the Ap; x = the xp; y = the yp in
        if cols A \<noteq> len x \<or> rows A \<noteq> len y then (- 1, yp)
        else let ntw = coerce_nt (nt cfg) in
          if \<not> ths_ok e \<or> \<not> jobs_ok e then (- 1, yp)
          else let started = spawn (create_ok e) 0 (nat (sint ntw)) in
            (0, Some (y\<lparr>Vec.data := Some
                 (run_workers (\<lambda>t. mv_worker (g_stop e t) A x (word_of_nat t) ntw) started
                    (the (Vec.data y)))\<rparr>)))"

section \<open>Matrix-matrix product\<close>

definition min_sz :: "nat \<Rightarrow> nat \<Rightarrow> nat" where
  "min_sz a b = (if a < b then a else b)"

text \<open>
  The innermost loop of both branches of \<^verbatim>\<open>mm_worker\<close>, for row \<open>i\<close>, reduction index
  \<open>k\<close> and the columns \<open>[j0, j1)\<close>:
  \<^verbatim>\<open>
  double a = A->data[i*K + k];
  const double *brow = &B->data[k*N];
  double *crow = &C->data[i*N];
  for (size_t col = j0; col < j1; col++) crow[col] += a * brow[col];
  \<close>
\<close>

definition mm_axpy ::
  "('a::{plus,times}) list \<Rightarrow> 'a list \<Rightarrow> nat \<Rightarrow> nat \<Rightarrow> nat \<Rightarrow> nat \<Rightarrow> nat \<Rightarrow> nat \<Rightarrow> 'a list \<Rightarrow> 'a list" where
  "mm_axpy a b K N i k j0 j1 c =
     (let av = a ! (i * K + k) in
      for_loop (\<lambda>col c. c[i * N + col := c ! (i * N + col) + av * b ! (k * N + col)]) j0 j1 c)"

text \<open>
  The value of output cell \<open>(i, j)\<close> once the contributions \<open>k = k0, \<dots>, k1 - 1\<close> have
  been added, in that order, to \<open>acc\<close>. This is a device of the proofs.
\<close>

definition mm_cell ::
  "('a::{plus,times}) list \<Rightarrow> 'a list \<Rightarrow> nat \<Rightarrow> nat \<Rightarrow> nat \<Rightarrow> nat \<Rightarrow> nat \<Rightarrow> nat \<Rightarrow> 'a \<Rightarrow> 'a" where
  "mm_cell a b K N i j k0 k1 acc = fold (\<lambda>k s. s + a ! (i * K + k) * b ! (k * N + j)) [k0..<k1] acc"

text \<open>The body of the row loop when \<^verbatim>\<open>tile <= 0\<close>.\<close>

definition mm_row_plain ::
  "('a::{plus,times}) list \<Rightarrow> 'a list \<Rightarrow> nat \<Rightarrow> nat \<Rightarrow> nat \<Rightarrow> 'a list \<Rightarrow> 'a list" where
  "mm_row_plain a b K N i c = for_loop (\<lambda>k c. mm_axpy a b K N i k 0 N c) 0 K c"

text \<open>
  The body of the row loop when \<^verbatim>\<open>tile > 0\<close>:
  \<^verbatim>\<open>
  for (size_t jj = 0; jj < N; jj += T) {
      size_t jend = min_sz(jj + T, N);
      for (size_t kk = 0; kk < K; kk += T) {
          size_t kend = min_sz(kk + T, K);
          for (size_t k = kk; k < kend; k++) { ... for (col = jj; col < jend; col++) ... }
      }
  }
  \<close>
\<close>

definition mm_row_tiled ::
  "('a::{plus,times}) list \<Rightarrow> 'a list \<Rightarrow> nat \<Rightarrow> nat \<Rightarrow> nat \<Rightarrow> nat \<Rightarrow> 'a list \<Rightarrow> 'a list" where
  "mm_row_tiled a b K N T i c =
     step_loop T
       (\<lambda>jj c. let jend = min_sz (jj + T) N in
          step_loop T
            (\<lambda>kk c. let kend = min_sz (kk + T) K in
               for_loop (\<lambda>k c. mm_axpy a b K N i k jj jend c) kk kend c)
            0 K c)
       0 N c"

definition mm_worker ::
  "(nat \<Rightarrow> bool) \<Rightarrow> ('a::{plus,times}) Mat \<Rightarrow> 'a Mat \<Rightarrow> cint \<Rightarrow> cint \<Rightarrow> cint \<Rightarrow> 'a list \<Rightarrow> 'a list" where
  "mm_worker stop A B tid ntw tw cb =
     (let (i0, i1) = row_range (rows A) tid ntw;
          K = unat (cols A);
          N = unat (cols B);
          a = the (Mat.data A);
          b = the (Mat.data B)
      in if tw \<le>s 0 then rows_loop stop (mm_row_plain a b K N) (unat i0) (unat i1) cb
         else let T = unat (scast tw :: size_t)
              in rows_loop stop (mm_row_tiled a b K N T) (unat i0) (unat i1) cb)"

text \<open>
  \<^verbatim>\<open>memset(C->data, 0, nbytes)\<close> on a buffer of 8-byte doubles: the first
  \<open>nbytes div 8\<close> elements become \<open>0.0\<close>. (A count beyond the buffer is undefined in C;
  here it stops at the end of the buffer.)
\<close>

definition memset0 :: "('a::zero) list \<Rightarrow> nat \<Rightarrow> 'a list" where
  "memset0 buf nbytes =
     replicate (min (nbytes div 8) (length buf)) 0 @ drop (nbytes div 8) buf"

text \<open>
  \<^verbatim>\<open>
  int mm_mt(const Mat *A, const Mat *B, Mat *C, KCfg cfg) {
      if (!A || !B || !C || !A->data || !B->data || !C->data) return -1;
      if (A->cols != B->rows) return -1;
      if (C->rows != A->rows || C->cols != B->cols) return -1;
      memset(C->data, 0, sizeof(double) * C->rows * C->cols);
      int nt = cfg.nt <= 0 ? 1 : cfg.nt;
      pthread_t *ths = calloc(...); MMJob *jobs = calloc(...);
      if (!ths || !jobs) { free(ths); free(jobs); return -1; }
      ... create, join ...
      return 0;
  }
  \<close>
  The byte count of the \<^verbatim>\<open>memset\<close> is a product of 64-bit words.
\<close>

definition mm_mt ::
  "env \<Rightarrow> ('a::{zero,plus,times}) Mat option \<Rightarrow> 'a Mat option \<Rightarrow> 'a Mat option \<Rightarrow> KCfg
     \<Rightarrow> int \<times> 'a Mat option" where
  "mm_mt e Ap Bp Cp cfg =
     (if Ap = None \<or> Bp = None \<or> Cp = None \<or> Mat.data (the Ap) = None
         \<or> Mat.data (the Bp) = None \<or> Mat.data (the Cp) = None then (- 1, Cp)
      else let A = the Ap; B = the Bp; C = the Cp in
        if cols A \<noteq> rows B then (- 1, Cp)
        else if rows C \<noteq> rows A \<or> cols C \<noteq> cols B then (- 1, Cp)
        else let c0 = memset0 (the (Mat.data C)) (unat (8 * rows C * cols C));
                 ntw = coerce_nt (nt cfg)
          in if \<not> ths_ok e \<or> \<not> jobs_ok e then (- 1, Some (C\<lparr>Mat.data := Some c0\<rparr>))
             else let started = spawn (create_ok e) 0 (nat (sint ntw)) in
               (0, Some (C\<lparr>Mat.data := Some
                    (run_workers (\<lambda>t. mm_worker (g_stop e t) A B (word_of_nat t) ntw (tile cfg))
                       started c0)\<rparr>)))"

section \<open>Dot product\<close>

text \<open>
  \<^verbatim>\<open>
  double s = 0.0;
  for (size_t i = i0; i < i1; i++) {
      if (g_stop) break;
      s += j->x->data[i] * j->y->data[i];
  }
  j->partial = s;
  \<close>
  The result is the worker's private \<open>partial\<close>.
\<close>

definition dt_worker ::
  "(nat \<Rightarrow> bool) \<Rightarrow> ('a::{zero,plus,times}) Vec \<Rightarrow> 'a Vec \<Rightarrow> cint \<Rightarrow> cint \<Rightarrow> 'a" where
  "dt_worker stop x y tid ntw =
     (let n = len x;
          (i0, i1) = row_range n tid ntw
      in rows_loop stop (\<lambda>i s. s + the (Vec.data x) ! i * the (Vec.data y) ! i)
           (unat i0) (unat i1) 0)"

text \<open>
  \<^verbatim>\<open>
  int dt_mt(const Vec *x, const Vec *y, double *out, int nt) {
      if (!x || !y || !out || !x->data || !y->data) return -1;
      if (x->len != y->len) return -1;
      nt = nt <= 0 ? 1 : nt;
      ... calloc, create ...
      double sum = 0.0;
      for (int t = 0; t < nt; t++) { pthread_join(ths[t], NULL); sum += jobs[t].partial; }
      *out = sum;
      return 0;
  }
  \<close>
  \<open>outp\<close> is \<open>None\<close> for a \<^verbatim>\<open>NULL\<close> pointer and otherwise the value stored at \<open>*out\<close>.
\<close>

definition dt_mt ::
  "env \<Rightarrow> ('a::{zero,plus,times}) Vec option \<Rightarrow> 'a Vec option \<Rightarrow> 'a option \<Rightarrow> cint
     \<Rightarrow> int \<times> 'a option" where
  "dt_mt e xp yp outp ntv =
     (if xp = None \<or> yp = None \<or> outp = None \<or> Vec.data (the xp) = None
         \<or> Vec.data (the yp) = None then (- 1, outp)
      else let x = the xp; y = the yp in
        if len x \<noteq> len y then (- 1, outp)
        else let ntw = coerce_nt ntv in
          if \<not> ths_ok e \<or> \<not> jobs_ok e then (- 1, outp)
          else let started = spawn (create_ok e) 0 (nat (sint ntw));
                   sum = for_loop
                           (\<lambda>t sum. sum + dt_worker (g_stop e t) x y (word_of_nat t) ntw)
                           0 started 0
               in (0, Some sum))"

section \<open>AXPY\<close>

text \<open>
  \<^verbatim>\<open>
  for (size_t i = i0; i < i1; i++) {
      if (g_stop) break;
      j->y->data[i] = j->a * j->x->data[i] + j->y->data[i];
  }
  \<close>
\<close>

definition ax_worker ::
  "(nat \<Rightarrow> bool) \<Rightarrow> ('a::{plus,times}) \<Rightarrow> 'a Vec \<Rightarrow> cint \<Rightarrow> cint \<Rightarrow> 'a list \<Rightarrow> 'a list" where
  "ax_worker stop a x tid ntw yb =
     (let n = len x;
          (i0, i1) = row_range n tid ntw
      in rows_loop stop (\<lambda>i yb. yb[i := a * the (Vec.data x) ! i + yb ! i])
           (unat i0) (unat i1) yb)"

text \<open>
  \<^verbatim>\<open>
  int ax_mt(double a, const Vec *x, Vec *y, int nt) {
      if (!x || !y || !x->data || !y->data) return -1;
      if (x->len != y->len) return -1;
      nt = nt <= 0 ? 1 : nt;
      ... calloc, create, join ...
      return 0;
  }
  \<close>
\<close>

definition ax_mt ::
  "env \<Rightarrow> ('a::{plus,times}) \<Rightarrow> 'a Vec option \<Rightarrow> 'a Vec option \<Rightarrow> cint \<Rightarrow> int \<times> 'a Vec option" where
  "ax_mt e a xp yp ntv =
     (if xp = None \<or> yp = None \<or> Vec.data (the xp) = None \<or> Vec.data (the yp) = None
      then (- 1, yp)
      else let x = the xp; y = the yp in
        if len x \<noteq> len y then (- 1, yp)
        else let ntw = coerce_nt ntv in
          if \<not> ths_ok e \<or> \<not> jobs_ok e then (- 1, yp)
          else let started = spawn (create_ok e) 0 (nat (sint ntw)) in
            (0, Some (y\<lparr>Vec.data := Some
                 (run_workers (\<lambda>t. ax_worker (g_stop e t) a x (word_of_nat t) ntw) started
                    (the (Vec.data y)))\<rparr>)))"

section \<open>Checked execution\<close>

text \<open>
  In the definitions above an array access is a list access, and a list access outside the
  list is not an error: \<open>xs ! i\<close> is some value and \<open>xs[i := v]\<close> is \<open>xs\<close>. To say that a
  call does not crash, the kernels are given a second time, statement by statement as above,
  with every access of the source checked. The result is \<open>None\<close> as soon as a step reads or
  writes an element outside its buffer, dereferences a \<^verbatim>\<open>NULL\<close> buffer or divides by zero,
  and otherwise \<open>Some\<close> of the status and the output. Taking an address
  (\<^verbatim>\<open>&A->data[i * n]\<close>) is not an access. The arrays of thread handles and job descriptors
  have \<open>nt\<close> elements and are indexed by \<open>t < nt\<close> only; they are not modelled. On every
  input whose buffers have the sizes that the dimensions say, the checked kernels do not
  fail and return what the definitions above return (lemmas \<open>mv_mt_chk_safe\<close>,
  \<open>mm_mt_chk_safe\<close>, \<open>dt_mt_chk_safe\<close>, \<open>ax_mt_chk_safe\<close>).
\<close>

definition load :: "'a list \<Rightarrow> nat \<Rightarrow> 'a option" where
  "load b i = (if i < length b then Some (b ! i) else None)"

definition store :: "'a list \<Rightarrow> nat \<Rightarrow> 'a \<Rightarrow> 'a list option" where
  "store b i v = (if i < length b then Some (b[i := v]) else None)"

text \<open>The elements that may be accessed through a \<open>data\<close> pointer: none when it is \<^verbatim>\<open>NULL\<close>.\<close>

definition buffer :: "'a list option \<Rightarrow> 'a list" where
  "buffer d = (case d of None \<Rightarrow> [] | Some b \<Rightarrow> b)"

text \<open>\<open>row_range\<close> divides by \<^verbatim>\<open>(size_t)nt\<close>.\<close>

definition row_range_chk :: "size_t \<Rightarrow> cint \<Rightarrow> cint \<Rightarrow> (size_t \<times> size_t) option" where
  "row_range_chk nrows tid ntw =
     (if (scast ntw :: size_t) = 0 then None else Some (row_range nrows tid ntw))"

text \<open>The started workers, one after the other; a worker that crashes ends the run.\<close>

definition run_workers_chk :: "(nat \<Rightarrow> 's \<Rightarrow> 's option) \<Rightarrow> nat \<Rightarrow> 's \<Rightarrow> 's option" where
  "run_workers_chk w started s = fold (\<lambda>t st. Option.bind st (w t)) [0..<started] (Some s)"

definition mv_row_chk :: "('a::{zero,plus,times}) list \<Rightarrow> 'a list \<Rightarrow> nat \<Rightarrow> nat \<Rightarrow> 'a option" where
  "mv_row_chk a xb n i =
     for_loop (\<lambda>k st. do { sum \<leftarrow> st; av \<leftarrow> load a (i * n + k); xv \<leftarrow> load xb k;
                            Some (sum + av * xv) }) 0 n (Some 0)"

definition mv_worker_chk ::
  "(nat \<Rightarrow> bool) \<Rightarrow> ('a::{zero,plus,times}) Mat \<Rightarrow> 'a Vec \<Rightarrow> cint \<Rightarrow> cint \<Rightarrow> 'a list
     \<Rightarrow> 'a list option" where
  "mv_worker_chk stop A x tid ntw yb =
     do { (i0, i1) \<leftarrow> row_range_chk (rows A) tid ntw;
          rows_loop stop
            (\<lambda>i st. do { yb \<leftarrow> st;
                          sum \<leftarrow> mv_row_chk (buffer (Mat.data A)) (buffer (Vec.data x))
                                   (unat (cols A)) i;
                          store yb i sum })
            (unat i0) (unat i1) (Some yb) }"

definition mv_mt_chk ::
  "env \<Rightarrow> ('a::{zero,plus,times}) Mat option \<Rightarrow> 'a Vec option \<Rightarrow> 'a Vec option \<Rightarrow> KCfg
     \<Rightarrow> (int \<times> 'a Vec option) option" where
  "mv_mt_chk e Ap xp yp cfg =
     (if Ap = None \<or> xp = None \<or> yp = None \<or> Mat.data (the Ap) = None
         \<or> Vec.data (the xp) = None \<or> Vec.data (the yp) = None then Some (- 1, yp)
      else let A = the Ap; x = the xp; y = the yp in
        if cols A \<noteq> len x \<or> rows A \<noteq> len y then Some (- 1, yp)
        else let ntw = coerce_nt (nt cfg) in
          if \<not> ths_ok e \<or> \<not> jobs_ok e then Some (- 1, yp)
          else let started = spawn (create_ok e) 0 (nat (sint ntw)) in
            do { yb \<leftarrow> run_workers_chk
                         (\<lambda>t. mv_worker_chk (g_stop e t) A x (word_of_nat t) ntw) started
                         (buffer (Vec.data y));
                 Some (0, Some (y\<lparr>Vec.data := Some yb\<rparr>)) })"

definition mm_axpy_chk ::
  "('a::{plus,times}) list \<Rightarrow> 'a list \<Rightarrow> nat \<Rightarrow> nat \<Rightarrow> nat \<Rightarrow> nat \<Rightarrow> nat \<Rightarrow> nat \<Rightarrow> 'a list
     \<Rightarrow> 'a list option" where
  "mm_axpy_chk a b K N i k j0 j1 c =
     do { av \<leftarrow> load a (i * K + k);
          for_loop (\<lambda>col st. do { c \<leftarrow> st; cv \<leftarrow> load c (i * N + col);
                                   bv \<leftarrow> load b (k * N + col);
                                   store c (i * N + col) (cv + av * bv) })
            j0 j1 (Some c) }"

definition mm_row_plain_chk ::
  "('a::{plus,times}) list \<Rightarrow> 'a list \<Rightarrow> nat \<Rightarrow> nat \<Rightarrow> nat \<Rightarrow> 'a list \<Rightarrow> 'a list option" where
  "mm_row_plain_chk a b K N i c =
     for_loop (\<lambda>k st. do { c \<leftarrow> st; mm_axpy_chk a b K N i k 0 N c }) 0 K (Some c)"

definition mm_row_tiled_chk ::
  "('a::{plus,times}) list \<Rightarrow> 'a list \<Rightarrow> nat \<Rightarrow> nat \<Rightarrow> nat \<Rightarrow> nat \<Rightarrow> 'a list \<Rightarrow> 'a list option" where
  "mm_row_tiled_chk a b K N T i c =
     step_loop T
       (\<lambda>jj st. let jend = min_sz (jj + T) N in
          step_loop T
            (\<lambda>kk st. let kend = min_sz (kk + T) K in
               for_loop (\<lambda>k st. do { c \<leftarrow> st; mm_axpy_chk a b K N i k jj jend c }) kk kend st)
            0 K st)
       0 N (Some c)"

definition mm_worker_chk ::
  "(nat \<Rightarrow> bool) \<Rightarrow> ('a::{plus,times}) Mat \<Rightarrow> 'a Mat \<Rightarrow> cint \<Rightarrow> cint \<Rightarrow> cint \<Rightarrow> 'a list
     \<Rightarrow> 'a list option" where
  "mm_worker_chk stop A B tid ntw tw cb =
     do { (i0, i1) \<leftarrow> row_range_chk (rows A) tid ntw;
          let K = unat (cols A);
              N = unat (cols B);
              a = buffer (Mat.data A);
              b = buffer (Mat.data B)
          in if tw \<le>s 0
             then rows_loop stop (\<lambda>i st. do { c \<leftarrow> st; mm_row_plain_chk a b K N i c })
                    (unat i0) (unat i1) (Some cb)
             else let T = unat (scast tw :: size_t)
                  in rows_loop stop (\<lambda>i st. do { c \<leftarrow> st; mm_row_tiled_chk a b K N T i c })
                       (unat i0) (unat i1) (Some cb) }"

text \<open>\<^verbatim>\<open>memset\<close> must stay inside the buffer.\<close>

definition memset_chk :: "('a::zero) list \<Rightarrow> nat \<Rightarrow> 'a list option" where
  "memset_chk buf nbytes = (if nbytes \<le> 8 * length buf then Some (memset0 buf nbytes) else None)"

definition mm_mt_chk ::
  "env \<Rightarrow> ('a::{zero,plus,times}) Mat option \<Rightarrow> 'a Mat option \<Rightarrow> 'a Mat option \<Rightarrow> KCfg
     \<Rightarrow> (int \<times> 'a Mat option) option" where
  "mm_mt_chk e Ap Bp Cp cfg =
     (if Ap = None \<or> Bp = None \<or> Cp = None \<or> Mat.data (the Ap) = None
         \<or> Mat.data (the Bp) = None \<or> Mat.data (the Cp) = None then Some (- 1, Cp)
      else let A = the Ap; B = the Bp; C = the Cp in
        if cols A \<noteq> rows B then Some (- 1, Cp)
        else if rows C \<noteq> rows A \<or> cols C \<noteq> cols B then Some (- 1, Cp)
        else do {
          c0 \<leftarrow> memset_chk (buffer (Mat.data C)) (unat (8 * rows C * cols C));
          let ntw = coerce_nt (nt cfg)
          in if \<not> ths_ok e \<or> \<not> jobs_ok e then Some (- 1, Some (C\<lparr>Mat.data := Some c0\<rparr>))
             else let started = spawn (create_ok e) 0 (nat (sint ntw)) in
               do { cb \<leftarrow> run_workers_chk
                            (\<lambda>t. mm_worker_chk (g_stop e t) A B (word_of_nat t) ntw (tile cfg))
                            started c0;
                    Some (0, Some (C\<lparr>Mat.data := Some cb\<rparr>)) } })"

definition dt_worker_chk ::
  "(nat \<Rightarrow> bool) \<Rightarrow> ('a::{zero,plus,times}) Vec \<Rightarrow> 'a Vec \<Rightarrow> cint \<Rightarrow> cint \<Rightarrow> 'a option" where
  "dt_worker_chk stop x y tid ntw =
     do { (i0, i1) \<leftarrow> row_range_chk (len x) tid ntw;
          rows_loop stop
            (\<lambda>i st. do { s \<leftarrow> st; xv \<leftarrow> load (buffer (Vec.data x)) i;
                          yv \<leftarrow> load (buffer (Vec.data y)) i; Some (s + xv * yv) })
            (unat i0) (unat i1) (Some 0) }"

definition dt_mt_chk ::
  "env \<Rightarrow> ('a::{zero,plus,times}) Vec option \<Rightarrow> 'a Vec option \<Rightarrow> 'a option \<Rightarrow> cint
     \<Rightarrow> (int \<times> 'a option) option" where
  "dt_mt_chk e xp yp outp ntv =
     (if xp = None \<or> yp = None \<or> outp = None \<or> Vec.data (the xp) = None
         \<or> Vec.data (the yp) = None then Some (- 1, outp)
      else let x = the xp; y = the yp in
        if len x \<noteq> len y then Some (- 1, outp)
        else let ntw = coerce_nt ntv in
          if \<not> ths_ok e \<or> \<not> jobs_ok e then Some (- 1, outp)
          else let started = spawn (create_ok e) 0 (nat (sint ntw)) in
            do { sum \<leftarrow> for_loop
                          (\<lambda>t st. do { sum \<leftarrow> st;
                                        p \<leftarrow> dt_worker_chk (g_stop e t) x y (word_of_nat t) ntw;
                                        Some (sum + p) })
                          0 started (Some 0);
                 Some (0, Some sum) })"

definition ax_worker_chk ::
  "(nat \<Rightarrow> bool) \<Rightarrow> ('a::{plus,times}) \<Rightarrow> 'a Vec \<Rightarrow> cint \<Rightarrow> cint \<Rightarrow> 'a list \<Rightarrow> 'a list option" where
  "ax_worker_chk stop a x tid ntw yb =
     do { (i0, i1) \<leftarrow> row_range_chk (len x) tid ntw;
          rows_loop stop
            (\<lambda>i st. do { yb \<leftarrow> st; xv \<leftarrow> load (buffer (Vec.data x)) i; yv \<leftarrow> load yb i;
                          store yb i (a * xv + yv) })
            (unat i0) (unat i1) (Some yb) }"

definition ax_mt_chk ::
  "env \<Rightarrow> ('a::{plus,times}) \<Rightarrow> 'a Vec option \<Rightarrow> 'a Vec option \<Rightarrow> cint
     \<Rightarrow> (int \<times> 'a Vec option) option" where
  "ax_mt_chk e a xp yp ntv =
     (if xp = None \<or> yp = None \<or> Vec.data (the xp) = None \<or> Vec.data (the yp) = None
      then Some (- 1, yp)
      else let x = the xp; y = the yp in
        if len x \<noteq> len y then Some (- 1, yp)
        else let ntw = coerce_nt ntv in
          if \<not> ths_ok e \<or> \<not> jobs_ok e then Some (- 1, yp)
          else let started = spawn (create_ok e) 0 (nat (sint ntw)) in
            do { yb \<leftarrow> run_workers_chk
                         (\<lambda>t. ax_worker_chk (g_stop e t) a x (word_of_nat t) ntw) started
                         (buffer (Vec.data y));
                 Some (0, Some (y\<lparr>Vec.data := Some yb\<rparr>)) })"

section \<open>Test data\<close>

text \<open>A call environment in which nothing fails and nobody cancels.\<close>

definition quiet_env :: env where
  "quiet_env = \<lparr>ths_ok = True, jobs_ok = True, create_ok = (\<lambda>t. True), g_stop = (\<lambda>t i. False)\<rparr>"

definition vec_of :: "'a list \<Rightarrow> 'a Vec" where
  "vec_of xs = \<lparr>len = word_of_nat (length xs), data = Some xs\<rparr>"

definition mat_of :: "nat \<Rightarrow> nat \<Rightarrow> 'a list \<Rightarrow> 'a Mat" where
  "mat_of r c xs = \<lparr>rows = word_of_nat r, cols = word_of_nat c, data = Some xs\<rparr>"

section \<open>The partitioner: machine arithmetic\<close>

lemma sint_of_nat_small:
  assumes "t < 2 ^ 31"
  shows "sint (word_of_nat t :: cint) = int t"
proof -
  have "sint (word_of_int (int t) :: cint) = signed_take_bit 31 (int t)"
    by (simp only: sint_sbintrunc') simp
  also have "\<dots> = int t"
    using assms by (intro signed_take_bit_int_eq_self) auto
  finally show ?thesis by simp
qed

lemma scast_of_nat_small:
  assumes "t < 2 ^ 31"
  shows "(scast (word_of_nat t :: cint) :: size_t) = word_of_nat t"
  using sint_of_nat_small [OF assms] by (simp add: scast_eq)

lemma unat_of_nat_small:
  assumes "t < 2 ^ 31"
  shows "unat (word_of_nat t :: size_t) = t"
proof -
  have "t < 2 ^ 64" using assms by (rule less_trans) simp
  then show ?thesis by (simp add: unat_of_nat)
qed

lemma sint_pos_bounds:
  assumes "0 <s (w :: cint)"
  shows "0 < sint w" and "nat (sint w) < 2 ^ 31"
proof -
  show p: "0 < sint w" using assms by (simp add: word_sless_alt)
  have "sint w < 2 ^ 31" using sint_lt [of w] by simp
  then show "nat (sint w) < 2 ^ 31" using p by (simp add: nat_less_iff)
qed

lemma unat_scast_pos:
  assumes "0 <s (w :: cint)"
  shows "unat (scast w :: size_t) = nat (sint w)"
proof -
  have b: "0 < sint w" "nat (sint w) < 2 ^ 31"
    using sint_pos_bounds [OF assms] by simp_all
  have "sint w = int (nat (sint w))"
    using b by simp
  then have "(word_of_int (sint w) :: size_t) = word_of_nat (nat (sint w))"
    by (metis of_int_of_nat_eq)
  then have "(scast w :: size_t) = word_of_nat (nat (sint w))"
    by (simp only: scast_eq)
  then show ?thesis
    using unat_of_nat_small [OF b(2)] by simp
qed

lemma sint_ucast_small:
  assumes "unat (r :: size_t) < 2 ^ 31"
  shows "sint (ucast r :: cint) = int (unat r)"
proof -
  have "uint r = int (unat r)"
    by simp
  then have "(word_of_int (uint r) :: cint) = word_of_nat (unat r)"
    by (metis of_int_of_nat_eq)
  then have "(ucast r :: cint) = word_of_nat (unat r)"
    by (simp only: ucast_eq)
  then show ?thesis
    using sint_of_nat_small [OF assms] by simp
qed

lemma row_range_nat:
  fixes nrows :: size_t and ntw :: cint
  assumes nt: "0 <s ntw" and t: "t < nat (sint ntw)"
  defines "n \<equiv> nat (sint ntw)" and "r \<equiv> unat nrows"
  shows "range_lo nrows ntw t = t * (r div n) + min t (r mod n)"
    and "range_hi nrows ntw t =
           t * (r div n) + min t (r mod n) + r div n + (if t < r mod n then 1 else 0)"
proof -
  have n31: "n < 2 ^ 31" and n0: "0 < n"
    using sint_pos_bounds [OF nt] by (simp_all add: n_def)
  have t31: "t < 2 ^ 31" using t n31 by (simp add: n_def)
  have un: "unat (scast ntw :: size_t) = n"
    using unat_scast_pos [OF nt] by (simp add: n_def)
  have r64: "r < 2 ^ 64"
    using unsigned_less [of nrows, where 'a = nat] by (simp add: r_def)
  define base where "base = nrows div scast ntw"
  define rem where "rem = nrows mod scast ntw"
  have ub: "unat base = r div n" by (simp add: base_def unat_div un r_def)
  have ur: "unat rem = r mod n" by (simp add: rem_def unat_mod un r_def)
  have rn: "r mod n < n" using n0 by simp
  have r31: "unat rem < 2 ^ 31" using rn n31 ur by linarith
  have cmp: "(word_of_nat t <s (ucast rem :: cint)) = (t < r mod n)"
    using sint_ucast_small [OF r31] sint_of_nat_small [OF t31] ur
    by (simp add: word_sless_alt)
  have st: "(scast (word_of_nat t :: cint) :: size_t) = word_of_nat t"
    by (rule scast_of_nat_small [OF t31])
  have ut: "unat (word_of_nat t :: size_t) = t"
    by (rule unat_of_nat_small [OF t31])
  have decomp: "r = n * (r div n) + r mod n" by simp
  have tb: "t * (r div n) \<le> n * (r div n)" using t by (simp add: n_def)
  have le1: "t * (r div n) + min t (r mod n) + r div n + (if t < r mod n then 1 else 0) \<le> r"
  proof -
    have "Suc t * (r div n) \<le> n * (r div n)" using t by (intro mult_le_mono1) (simp add: n_def)
    moreover have "min t (r mod n) + (if t < r mod n then 1 else 0) \<le> r mod n" by simp
    ultimately have "Suc t * (r div n) + (min t (r mod n) + (if t < r mod n then 1 else 0)) \<le> n * (r div n) + r mod n"
      by (rule add_mono)
    then show ?thesis using decomp by (simp add: algebra_simps)
  qed
  have m1: "unat (word_of_nat t * base :: size_t) = t * (r div n)"
  proof -
    have "unat (word_of_nat t :: size_t) * unat base < 2 ^ 64"
      using le1 r64 by (simp add: ut ub)
    then show ?thesis
      using unat_mult_lem [of "word_of_nat t :: size_t" base] by (simp add: ut ub)
  qed
  define sel where "sel = (if t < r mod n then (word_of_nat t :: size_t) else rem)"
  have us: "unat sel = min t (r mod n)"
    by (simp add: sel_def ut ur)
  have a1: "unat (word_of_nat t * base + sel) = t * (r div n) + min t (r mod n)"
  proof -
    have "unat (word_of_nat t * base :: size_t) + unat sel < 2 ^ 64"
      using le1 r64 by (simp add: m1 us)
    then show ?thesis
      using unat_add_lem [of "word_of_nat t * base :: size_t" sel] by (simp add: m1 us)
  qed
  have a2: "unat (word_of_nat t * base + sel + base) = t * (r div n) + min t (r mod n) + r div n"
  proof -
    have "unat (word_of_nat t * base + sel) + unat base < 2 ^ 64"
      using le1 r64 by (simp add: a1 ub)
    then show ?thesis
      using unat_add_lem [of "word_of_nat t * base + sel" base] by (simp add: a1 ub)
  qed
  define ex where "ex = (if t < r mod n then (1 :: size_t) else 0)"
  have ue: "unat ex = (if t < r mod n then 1 else 0)" by (simp add: ex_def)
  have a3: "unat (word_of_nat t * base + sel + base + ex)
            = t * (r div n) + min t (r mod n) + r div n + (if t < r mod n then 1 else 0)"
  proof -
    have "unat (word_of_nat t * base + sel + base) + unat ex < 2 ^ 64"
      using le1 r64 by (simp add: a2 ue)
    then show ?thesis
      using unat_add_lem [of "word_of_nat t * base + sel + base" ex] by (simp add: a2 ue)
  qed
  have rr: "row_range nrows (word_of_nat t) ntw
            = (word_of_nat t * base + sel, word_of_nat t * base + sel + base + ex)"
    by (simp add: row_range_def Let_def cmp st base_def [symmetric] rem_def [symmetric]
          sel_def ex_def)
  show "range_lo nrows ntw t = t * (r div n) + min t (r mod n)"
    by (simp add: range_lo_def rr a1)
  show "range_hi nrows ntw t =
           t * (r div n) + min t (r mod n) + r div n + (if t < r mod n then 1 else 0)"
    by (simp add: range_hi_def rr a3)
qed

section \<open>The partitioner: the ranges partition the rows\<close>

lemma boundary_0: "boundary r n 0 = 0"
  by (simp add: boundary_def)

lemma boundary_n: "0 < n \<Longrightarrow> boundary r n n = r"
proof -
  assume "0 < n"
  then have "r mod n < n" by simp
  then have "min n (r mod n) = r mod n" by simp
  then show ?thesis by (simp add: boundary_def)
qed

lemma boundary_Suc:
  "boundary r n (Suc k) = boundary r n k + r div n + (if k < r mod n then 1 else 0)"
  by (simp add: boundary_def min_def)

lemma boundary_le_Suc: "boundary r n k \<le> boundary r n (Suc k)"
  by (simp add: boundary_Suc)

lemma boundary_mono: "j \<le> k \<Longrightarrow> boundary r n j \<le> boundary r n k"
  by (rule lift_Suc_mono_le [of "boundary r n"]) (simp_all add: boundary_le_Suc)

lemma boundary_le: "0 < n \<Longrightarrow> k \<le> n \<Longrightarrow> boundary r n k \<le> r"
  using boundary_mono [of k n r n] by (simp add: boundary_n)

lemma range_lo_boundary:
  assumes "0 <s ntw" and "t < nat (sint ntw)"
  shows "range_lo nrows ntw t = boundary (unat nrows) (nat (sint ntw)) t"
  using row_range_nat(1) [OF assms] by (simp add: boundary_def)

lemma range_hi_boundary:
  assumes "0 <s ntw" and "t < nat (sint ntw)"
  shows "range_hi nrows ntw t = boundary (unat nrows) (nat (sint ntw)) (Suc t)"
  using row_range_nat(2) [OF assms] by (simp add: boundary_Suc) (simp add: boundary_def)

lemma boundary_cover: "(\<Union>t<k. {boundary r n t..<boundary r n (Suc t)}) = {0..<boundary r n k}"
proof (induction k)
  case 0
  then show ?case by (simp add: boundary_0)
next
  case (Suc k)
  have "{0..<boundary r n k} \<union> {boundary r n k..<boundary r n (Suc k)} = {0..<boundary r n (Suc k)}"
    using boundary_le_Suc [of r n k] by auto
  with Suc show ?case by (simp add: lessThan_Suc Un_commute)
qed

lemma ceil_div:
  assumes n: "0 < n"
  shows "(r + n - 1) div n = r div n + (if r mod n = 0 then 0 else (1::nat))"
proof -
  define q where "q = r div n"
  define m where "m = r mod n"
  have r: "r = n * q + m" by (simp add: q_def m_def)
  have m: "m < n" using n by (simp add: m_def)
  have "(r + n - 1) div n = q + (if m = 0 then 0 else 1)"
  proof (cases "m = 0")
    case True
    have "n * q \<le> r + n - 1" using r n by linarith
    moreover have "r + n - 1 < n * q + n" using r n True by linarith
    then have "r + n - 1 < n * Suc q" by simp
    ultimately have "(r + n - 1) div n = q" by (rule div_nat_eqI)
    then show ?thesis using True by simp
  next
    case False
    have "n * q + n \<le> r + n - 1" using r False by linarith
    then have "n * Suc q \<le> r + n - 1" by simp
    moreover have "r + n - 1 < n * q + n + n" using r m by linarith
    then have "r + n - 1 < n * Suc (Suc q)" by simp
    ultimately have "(r + n - 1) div n = Suc q" by (rule div_nat_eqI)
    then show ?thesis using False by simp
  qed
  then show ?thesis by (simp add: q_def m_def)
qed

text \<open>
  Claim C1. For every row count \<open>nrows\<close> and every worker count \<open>ntw \<ge> 1\<close>, worker
  \<open>t\<close> (\<open>0 \<le> t < ntw\<close>) receives the half-open range that starts at
  \<open>t * base + min t rem\<close> and has \<open>base\<close> rows, plus one when \<open>t < rem\<close>, where
  \<open>base = nrows div ntw\<close> and \<open>rem = nrows mod ntw\<close>. The first range starts at 0, each
  range starts where the previous one ends, the last one ends at \<open>nrows\<close>; so the ranges
  ascend with the worker index, are pairwise disjoint, their union is \<open>[0, nrows)\<close>, and
  each has \<open>\<lfloor>nrows/ntw\<rfloor>\<close> or \<open>\<lceil>nrows/ntw\<rceil>\<close> rows. The statement is about the machine
  words the C function returns.
\<close>

theorem row_range_partition:
  fixes nrows :: size_t and ntw :: cint
  assumes nt: "1 \<le>s ntw"
  shows "(\<forall>t < nat (sint ntw).
            range_lo nrows ntw t
              = t * (unat nrows div nat (sint ntw)) + min t (unat nrows mod nat (sint ntw)) \<and>
            range_hi nrows ntw t
              = range_lo nrows ntw t + unat nrows div nat (sint ntw)
                + (if t < unat nrows mod nat (sint ntw) then 1 else 0)) \<and>
         range_lo nrows ntw 0 = 0 \<and>
         (\<forall>t. Suc t < nat (sint ntw) \<longrightarrow> range_lo nrows ntw (Suc t) = range_hi nrows ntw t) \<and>
         range_hi nrows ntw (nat (sint ntw) - 1) = unat nrows \<and>
         (\<forall>t < nat (sint ntw). \<forall>u < nat (sint ntw). t < u \<longrightarrow>
            range_hi nrows ntw t \<le> range_lo nrows ntw u) \<and>
         (\<forall>t < nat (sint ntw). \<forall>u < nat (sint ntw). t \<noteq> u \<longrightarrow>
            {range_lo nrows ntw t..<range_hi nrows ntw t}
              \<inter> {range_lo nrows ntw u..<range_hi nrows ntw u} = {}) \<and>
         (\<Union>t < nat (sint ntw). {range_lo nrows ntw t..<range_hi nrows ntw t}) = {0..<unat nrows} \<and>
         (\<forall>t < nat (sint ntw).
            range_hi nrows ntw t - range_lo nrows ntw t = unat nrows div nat (sint ntw) \<or>
            range_hi nrows ntw t - range_lo nrows ntw t
              = (unat nrows + nat (sint ntw) - 1) div nat (sint ntw))"
proof -
  define n where "n = nat (sint ntw)"
  define r where "r = unat nrows"
  have pos: "0 <s ntw"
    using nt by (simp add: word_sle_eq word_sless_alt)
  have n0: "0 < n"
    using sint_pos_bounds(1) [OF pos] by (simp add: n_def)
  have lo: "range_lo nrows ntw t = boundary r n t" if "t < n" for t
    using range_lo_boundary [OF pos] that by (simp add: n_def r_def)
  have bn: "boundary r n n = r"
    by (rule boundary_n [OF n0])
  have hi: "range_hi nrows ntw t = boundary r n (Suc t)" if "t < n" for t
    using range_hi_boundary [OF pos] that by (simp add: n_def r_def)
  have alg: "\<forall>t<n. range_lo nrows ntw t = t * (r div n) + min t (r mod n) \<and>
               range_hi nrows ntw t
                 = range_lo nrows ntw t + r div n + (if t < r mod n then 1 else 0)"
    using lo hi by (simp add: boundary_Suc) (simp add: boundary_def)
  have first: "range_lo nrows ntw 0 = 0"
    using lo [OF n0] by (simp add: boundary_0)
  have contig: "\<forall>t. Suc t < n \<longrightarrow> range_lo nrows ntw (Suc t) = range_hi nrows ntw t"
    using lo hi by simp
  have last: "range_hi nrows ntw (n - 1) = r"
    using hi [of "n - 1"] n0 by (simp add: bn)
  have asc: "range_hi nrows ntw t \<le> range_lo nrows ntw u" if "t < n" "u < n" "t < u" for t u
    using that lo hi boundary_mono [of "Suc t" u r n] by simp
  have disj: "{range_lo nrows ntw t..<range_hi nrows ntw t}
                \<inter> {range_lo nrows ntw u..<range_hi nrows ntw u} = {}"
    if "t < n" "u < n" "t \<noteq> u" for t u
  proof (cases "t < u")
    case True
    then show ?thesis using asc [of t u] that by auto
  next
    case False
    then have "u < t" using that by simp
    then show ?thesis using asc [of u t] that by auto
  qed
  have "(\<Union>t<n. {range_lo nrows ntw t..<range_hi nrows ntw t})
        = (\<Union>t<n. {boundary r n t..<boundary r n (Suc t)})"
    using lo hi by simp
  then have cover: "(\<Union>t<n. {range_lo nrows ntw t..<range_hi nrows ntw t}) = {0..<r}"
    by (simp add: boundary_cover bn)
  have size: "range_hi nrows ntw t - range_lo nrows ntw t = r div n \<or>
              range_hi nrows ntw t - range_lo nrows ntw t = (r + n - 1) div n" if "t < n" for t
  proof (cases "t < r mod n")
    case True
    then have "r mod n \<noteq> 0" by simp
    then show ?thesis
      using lo [OF that] hi [OF that] True ceil_div [OF n0, of r] by (simp add: boundary_Suc)
  next
    case False
    then show ?thesis
      using lo [OF that] hi [OF that] by (simp add: boundary_Suc)
  qed
  show ?thesis
    unfolding n_def [symmetric] r_def [symmetric]
    using alg first contig last asc disj cover size by blast
qed

theorem row_range_partition_witness:
  "1 \<le>s (3 :: cint) \<and>
   row_range 10 0 3 = (0, 4) \<and> row_range 10 1 3 = (4, 7) \<and> row_range 10 2 3 = (7, 10) \<and>
   (\<Union>t<3. {range_lo 10 3 t..<range_hi 10 3 t}) = {0..<10}"
proof -
  have h: "1 \<le>s (3 :: cint)" by (simp add: word_sle_eq)
  have n: "nat (sint (3 :: cint)) = 3" by simp
  have r: "unat (10 :: size_t) = 10" by simp
  have "(\<Union>t<3. {range_lo 10 3 t..<range_hi 10 3 t}) = {0..<10}"
    using row_range_partition [OF h, of 10] unfolding n r by (elim conjE) assumption
  moreover have "row_range 10 0 3 = (0, 4)" "row_range 10 1 3 = (4, 7)" "row_range 10 2 3 = (7, 10)"
    by (simp_all add: row_range_def Let_def word_sless_alt)
  ultimately show ?thesis using h by simp
qed

section \<open>Loops as folds, loop invariants\<close>

lemma for_loop_fold: "for_loop body i n s = fold body [i..<n] s"
proof (induction body i n s rule: for_loop.induct)
  case (1 body i n s)
  show ?case
  proof (cases "i < n")
    case True
    then show ?thesis
      using "1" by (subst for_loop.simps) (simp add: upt_conv_Cons)
  next
    case False
    then show ?thesis by (subst for_loop.simps) simp
  qed
qed

lemma rows_loop_nostop:
  "\<forall>i. \<not> stop i \<Longrightarrow> rows_loop stop body i n s = fold body [i..<n] s"
proof (induction stop body i n s rule: rows_loop.induct)
  case (1 stop body i n s)
  have ns: "\<not> stop i" using "1.prems" by blast
  show ?case
  proof (cases "i < n")
    case True
    have "rows_loop stop body (Suc i) n (body i s) = fold body [Suc i..<n] (body i s)"
      using "1.IH" [OF True ns "1.prems"] .
    then show ?thesis
      using True ns by (subst rows_loop.simps) (simp add: upt_conv_Cons)
  next
    case False
    then show ?thesis by (subst rows_loop.simps) simp
  qed
qed

lemma rows_loop_empty: "i1 \<le> i \<Longrightarrow> rows_loop stop body i i1 s = s"
  by (subst rows_loop.simps) simp

lemma rows_loop_inv:
  "P s \<Longrightarrow> (\<And>j s. i \<le> j \<Longrightarrow> j < i1 \<Longrightarrow> P s \<Longrightarrow> P (body j s)) \<Longrightarrow> P (rows_loop stop body i i1 s)"
proof (induction stop body i i1 s rule: rows_loop.induct)
  case (1 stop body i i1 s)
  show ?case
  proof (cases "i < i1 \<and> \<not> stop i")
    case True
    have "P (body i s)" using "1.prems" True by simp
    moreover have "\<And>j s. Suc i \<le> j \<Longrightarrow> j < i1 \<Longrightarrow> P s \<Longrightarrow> P (body j s)"
      using "1.prems"(2) by simp
    ultimately have "P (rows_loop stop body (Suc i) i1 (body i s))"
      using "1.IH" True by blast
    then show ?thesis using True by (subst rows_loop.simps) simp
  next
    case False
    then show ?thesis using "1.prems"(1) by (subst rows_loop.simps) auto
  qed
qed

lemma rows_loop_cong:
  "P s \<Longrightarrow> (\<And>j s. i \<le> j \<Longrightarrow> j < i1 \<Longrightarrow> P s \<Longrightarrow> f j s = g j s \<and> P (f j s))
     \<Longrightarrow> rows_loop stop f i i1 s = rows_loop stop g i i1 s"
proof (induction stop f i i1 s rule: rows_loop.induct)
  case (1 stop f i i1 s)
  show ?case
  proof (cases "i < i1 \<and> \<not> stop i")
    case True
    have "i \<le> i" "i < i1" using True by simp_all
    then have "f i s = g i s \<and> P (f i s)" using "1.prems" by blast
    then have e: "f i s = g i s" and p: "P (f i s)" by blast+
    have "\<And>j s. Suc i \<le> j \<Longrightarrow> j < i1 \<Longrightarrow> P s \<Longrightarrow> f j s = g j s \<and> P (f j s)"
      using "1.prems"(2) Suc_leD by blast
    then have "rows_loop stop f (Suc i) i1 (f i s) = rows_loop stop g (Suc i) i1 (f i s)"
      using "1.IH" True p by blast
    then show ?thesis
      using True e by (subst rows_loop.simps, subst (2) rows_loop.simps) simp
  next
    case False
    then show ?thesis by (subst rows_loop.simps, subst (2) rows_loop.simps) auto
  qed
qed

lemma fold_inv:
  "P s \<Longrightarrow> (\<And>j s. j \<in> set xs \<Longrightarrow> P s \<Longrightarrow> P (body j s)) \<Longrightarrow> P (fold body xs s)"
  by (induction xs arbitrary: s) auto

lemma for_loop_inv:
  "P s \<Longrightarrow> (\<And>j s. i \<le> j \<Longrightarrow> j < n \<Longrightarrow> P s \<Longrightarrow> P (body j s)) \<Longrightarrow> P (for_loop body i n s)"
  unfolding for_loop_fold by (rule fold_inv) auto

lemma step_loop_inv:
  "P s \<Longrightarrow> (\<And>j s. P s \<Longrightarrow> P (body j s)) \<Longrightarrow> P (step_loop T body j n s)"
proof (induction T body j n s rule: step_loop.induct)
  case (1 T body j n s)
  show ?case
  proof (cases "j < n \<and> 0 < T")
    case True
    have "P (body j s)" using "1.prems" by simp
    then have "P (step_loop T body (j + T) n (body j s))"
      using "1.IH" True "1.prems"(2) by blast
    then show ?thesis using True by (subst step_loop.simps) simp
  next
    case False
    then show ?thesis using "1.prems"(1) by (subst step_loop.simps) auto
  qed
qed

lemma step_loop_blocks:
  "0 < T \<Longrightarrow> step_loop T (\<lambda>kk. for_loop f kk (min_sz (kk + T) K)) k0 K s = for_loop f k0 K s"
proof (induction T "\<lambda>kk. for_loop f kk (min_sz (kk + T) K)" k0 K s rule: step_loop.induct)
  case (1 T k0 K s)
  show ?case
  proof (cases "k0 < K")
    case True
    define m where "m = min_sz (k0 + T) K"
    have m: "k0 \<le> m" "m \<le> K" using True by (simp_all add: m_def min_sz_def)
    have rest: "step_loop T (\<lambda>kk. for_loop f kk (min_sz (kk + T) K)) (k0 + T) K (for_loop f k0 m s)
                = for_loop f m K (for_loop f k0 m s)"
    proof (cases "k0 + T < K")
      case True
      then have mt: "m = k0 + T" by (simp add: m_def min_sz_def)
      have "k0 < K \<and> 0 < T" using \<open>k0 < K\<close> "1.prems" by simp
      then have "step_loop T (\<lambda>kk. for_loop f kk (min_sz (kk + T) K)) (k0 + T) K
                   (for_loop f k0 (min_sz (k0 + T) K) s)
                 = for_loop f (k0 + T) K (for_loop f k0 (min_sz (k0 + T) K) s)"
        using "1.hyps" "1.prems" by blast
      moreover have "min_sz (k0 + T) K = m" by (simp add: m_def)
      ultimately show ?thesis using mt by simp
    next
      case False
      then have mk: "m = K" by (simp add: m_def min_sz_def)
      have "step_loop T (\<lambda>kk. for_loop f kk (min_sz (kk + T) K)) (k0 + T) K (for_loop f k0 m s)
            = for_loop f k0 m s"
        using False by (subst step_loop.simps) simp
      moreover have "for_loop f m K (for_loop f k0 m s) = for_loop f k0 m s"
        using mk by (subst for_loop.simps) simp
      ultimately show ?thesis by simp
    qed
    have "[k0..<K] = [k0..<m] @ [m..<K]"
      using m by (metis le_Suc_ex upt_add_eq_append)
    then have "for_loop f k0 K s = for_loop f m K (for_loop f k0 m s)"
      by (simp add: for_loop_fold)
    then show ?thesis
      using True "1.prems" rest by (subst step_loop.simps) (simp add: m_def)
  next
    case False
    then show ?thesis
      by (subst step_loop.simps, subst for_loop.simps) simp
  qed
qed

lemma spawn_le: "t \<le> n \<Longrightarrow> spawn ok t n \<le> n"
proof (induction ok t n rule: spawn.induct)
  case (1 ok t n)
  then show ?case by (subst spawn.simps) auto
qed

lemma spawn_all: "\<forall>t. ok t \<Longrightarrow> t \<le> n \<Longrightarrow> spawn ok t n = n"
proof (induction ok t n rule: spawn.induct)
  case (1 ok t n)
  have okt: "ok t" using "1.prems" by blast
  show ?case
  proof (cases "t < n")
    case True
    have "spawn ok (Suc t) n = n"
      using "1.IH" [OF True okt "1.prems"(1)] True by simp
    then show ?thesis using True okt by (subst spawn.simps) simp
  next
    case False
    then show ?thesis using "1.prems"(2) by (subst spawn.simps) simp
  qed
qed

section \<open>All workers together process every row once, in order\<close>

lemma coerce_nt_pos: "0 <s coerce_nt n"
  by (simp add: coerce_nt_def word_sless_alt word_sle_eq)

lemma workers_upto:
  assumes pos: "0 <s ntw" and ns: "\<forall>t i. \<not> stop t i" and k: "k \<le> nat (sint ntw)"
  shows "fold (\<lambda>t. rows_loop (stop t) body (range_lo R ntw t) (range_hi R ntw t)) [0..<k] s
         = fold body [0..<boundary (unat R) (nat (sint ntw)) k] s"
  using k
proof (induction k)
  case 0
  then show ?case by (simp add: boundary_0)
next
  case (Suc k)
  let ?b = "boundary (unat R) (nat (sint ntw))"
  have kn: "k < nat (sint ntw)" using Suc.prems by simp
  have lo: "range_lo R ntw k = ?b k" by (rule range_lo_boundary [OF pos kn])
  have hi: "range_hi R ntw k = ?b (Suc k)" by (rule range_hi_boundary [OF pos kn])
  have nsk: "\<forall>i. \<not> stop k i" using ns by blast
  have split: "[0..<?b (Suc k)] = [0..<?b k] @ [?b k..<?b (Suc k)]"
    using boundary_le_Suc [of "unat R" "nat (sint ntw)" k]
    by (metis le_Suc_ex upt_add_eq_append zero_le)
  show ?case
    using Suc.IH kn by (simp add: lo hi rows_loop_nostop [OF nsk] split)
qed

lemma run_workers_all:
  assumes pos: "0 <s ntw" and ns: "\<forall>t i. \<not> stop t i"
  shows "run_workers (\<lambda>t. rows_loop (stop t) body (range_lo R ntw t) (range_hi R ntw t))
           (nat (sint ntw)) s
         = fold body [0..<unat R] s"
proof -
  have "0 < nat (sint ntw)" using sint_pos_bounds(1) [OF pos] by simp
  then show ?thesis
    using workers_upto [OF pos ns order_refl, of body R s]
    by (simp add: run_workers_def boundary_n)
qed

lemma fold_update_upt:
  "k \<le> length yb \<Longrightarrow>
   fold (\<lambda>i yb. yb[i := g i (yb ! i)]) [0..<k] yb = map (\<lambda>i. g i (yb ! i)) [0..<k] @ drop k yb"
proof (induction k)
  case 0
  then show ?case by simp
next
  case (Suc k)
  let ?m = "map (\<lambda>i. g i (yb ! i)) [0..<k]"
  have k: "k < length yb" using Suc.prems by simp
  have d: "drop k yb = yb ! k # drop (Suc k) yb"
    using k by (simp add: Cons_nth_drop_Suc)
  have "fold (\<lambda>i yb. yb[i := g i (yb ! i)]) [0..<Suc k] yb
        = (?m @ drop k yb)[k := g k ((?m @ drop k yb) ! k)]"
    using Suc.IH k by simp
  also have "(?m @ drop k yb) ! k = yb ! k"
    using k by (simp add: nth_append)
  also have "(?m @ drop k yb)[k := g k (yb ! k)] = ?m @ (drop k yb)[0 := g k (yb ! k)]"
    by (simp add: list_update_append)
  also have "\<dots> = ?m @ g k (yb ! k) # drop (Suc k) yb"
    by (simp add: d)
  finally show ?case by simp
qed

lemma fold_update_all:
  "length yb = r \<Longrightarrow>
   fold (\<lambda>i yb. yb[i := g i (yb ! i)]) [0..<r] yb = map (\<lambda>i. g i (yb ! i)) [0..<r]"
  using fold_update_upt [of r yb g] by simp

lemma mv_worker_range:
  "mv_worker stop A x (word_of_nat t) ntw yb
   = rows_loop stop (\<lambda>i yb. yb[i := mv_row (the (Mat.data A)) (the (Vec.data x)) (unat (cols A)) i])
       (range_lo (rows A) ntw t) (range_hi (rows A) ntw t) yb"
  by (simp add: mv_worker_def range_lo_def range_hi_def Let_def split_def)

lemma ax_worker_range:
  "ax_worker stop a x (word_of_nat t) ntw yb
   = rows_loop stop (\<lambda>i yb. yb[i := a * the (Vec.data x) ! i + yb ! i])
       (range_lo (len x) ntw t) (range_hi (len x) ntw t) yb"
  by (simp add: ax_worker_def range_lo_def range_hi_def Let_def split_def)

lemma dt_worker_range:
  "dt_worker stop x y (word_of_nat t) ntw
   = rows_loop stop (\<lambda>i s. s + the (Vec.data x) ! i * the (Vec.data y) ! i)
       (range_lo (len x) ntw t) (range_hi (len x) ntw t) 0"
  by (simp add: dt_worker_def range_lo_def range_hi_def Let_def split_def)

lemma mv_mt_fault_free:
  fixes A :: "('a::{zero,plus,times}) Mat"
  assumes A: "mat_ok A" and x: "vec_ok x" and y: "vec_ok y"
    and dims: "cols A = len x" "rows A = len y" and ff: "fault_free e"
  shows "mv_mt e (Some A) (Some x) (Some y) cfg
         = (0, Some (y\<lparr>Vec.data := Some
              (map (mv_row (the (Mat.data A)) (the (Vec.data x)) (unat (cols A)))
                 [0..<unat (rows A)])\<rparr>))"
proof -
  obtain yb where yb: "Vec.data y = Some yb" and ly: "length yb = unat (len y)"
    using y by (auto simp: vec_ok_def split: option.splits)
  have pres: "Mat.data A \<noteq> None" "Vec.data x \<noteq> None"
    using A x by (auto simp: mat_ok_def vec_ok_def split: option.splits)
  let ?ntw = "coerce_nt (nt cfg)"
  have pos: "0 <s ?ntw" by (rule coerce_nt_pos)
  have ns: "\<forall>t i. \<not> g_stop e t i" and al: "ths_ok e" "jobs_ok e" and cr: "\<forall>t. create_ok e t"
    using ff by (simp_all add: fault_free_def)
  have st: "spawn (create_ok e) 0 (nat (sint ?ntw)) = nat (sint ?ntw)"
    by (rule spawn_all [OF cr]) simp
  let ?f = "mv_row (the (Mat.data A)) (the (Vec.data x)) (unat (cols A))"
  have "run_workers (\<lambda>t. mv_worker (g_stop e t) A x (word_of_nat t) ?ntw) (nat (sint ?ntw)) yb
        = fold (\<lambda>i yb. yb[i := ?f i]) [0..<unat (rows A)] yb"
    unfolding mv_worker_range by (rule run_workers_all [OF pos ns])
  also have "\<dots> = map ?f [0..<unat (rows A)]"
    using fold_update_all [of yb "unat (rows A)" "\<lambda>i _. ?f i"] ly dims by simp
  finally show ?thesis
    using yb pres dims al st by (simp add: mv_mt_def Let_def)
qed

section \<open>Matrix-vector product: one thread against many\<close>

text \<open>
  Claim C6. For every valid \<open>A\<close>, \<open>x\<close> and output \<open>y\<close> with \<open>A.cols = x.len\<close> and
  \<open>A.rows = y.len\<close>, \<open>mv_mt\<close> with one thread and with any other thread count \<open>N\<close>
  return the same status and leave the same \<open>y\<close>, for every row count (0 included):
  whatever the partition, \<open>y[i]\<close> is written once, with the sum of row \<open>i\<close> taken in the
  same order \<open>k = 0, 1, \<dots>\<close>. The two results are the same values, not only close ones, and
  no law of arithmetic is used. The calls run in environments where no allocation and no
  thread creation fails and the cancellation flag is never seen set.
\<close>

theorem mv_mt_threads_agree:
  fixes A :: "('a::{zero,plus,times}) Mat"
  assumes "mat_ok A" and "vec_ok x" and "vec_ok y"
    and "cols A = len x" and "rows A = len y"
    and "fault_free e1" and "fault_free eN"
  shows "mv_mt e1 (Some A) (Some x) (Some y) \<lparr>nt = 1, tile = tw\<rparr>
         = mv_mt eN (Some A) (Some x) (Some y) \<lparr>nt = N, tile = tw\<rparr> \<and>
         mv_mt eN (Some A) (Some x) (Some y) \<lparr>nt = N, tile = tw\<rparr>
         = (0, Some (y\<lparr>Vec.data := Some
              (map (mv_row (the (Mat.data A)) (the (Vec.data x)) (unat (cols A)))
                 [0..<unat (rows A)])\<rparr>))"
  using mv_mt_fault_free [OF assms(1-5) assms(6)] mv_mt_fault_free [OF assms(1-5) assms(7)]
  by simp

theorem mv_mt_threads_agree_witness:
  "mat_ok (mat_of 2 3 [1, 2, 3, 4, 5, 6 :: real]) \<and> vec_ok (vec_of [1, 2, 3 :: real]) \<and>
   vec_ok (vec_of [7, 7 :: real]) \<and>
   cols (mat_of 2 3 [1, 2, 3, 4, 5, 6 :: real]) = len (vec_of [1, 2, 3 :: real]) \<and>
   rows (mat_of 2 3 [1, 2, 3, 4, 5, 6 :: real]) = len (vec_of [7, 7 :: real]) \<and>
   fault_free quiet_env \<and>
   mv_mt quiet_env (Some (mat_of 2 3 [1, 2, 3, 4, 5, 6 :: real])) (Some (vec_of [1, 2, 3]))
       (Some (vec_of [7, 7])) \<lparr>nt = 1, tile = 0\<rparr>
     = mv_mt quiet_env (Some (mat_of 2 3 [1, 2, 3, 4, 5, 6 :: real])) (Some (vec_of [1, 2, 3]))
         (Some (vec_of [7, 7])) \<lparr>nt = 7, tile = 0\<rparr> \<and>
   mv_mt quiet_env (Some (mat_of 2 3 [1, 2, 3, 4, 5, 6 :: real])) (Some (vec_of [1, 2, 3]))
       (Some (vec_of [7, 7])) \<lparr>nt = 7, tile = 0\<rparr>
     = (0, Some (vec_of [14, 32]))"
proof -
  have A: "mat_ok (mat_of 2 3 [1, 2, 3, 4, 5, 6 :: real])"
    by (simp add: mat_ok_def mat_of_def)
  have x: "vec_ok (vec_of [1, 2, 3 :: real])" and y: "vec_ok (vec_of [7, 7 :: real])"
    by (simp_all add: vec_ok_def vec_of_def)
  have d: "cols (mat_of 2 3 [1, 2, 3, 4, 5, 6 :: real]) = len (vec_of [1, 2, 3 :: real])"
      "rows (mat_of 2 3 [1, 2, 3, 4, 5, 6 :: real]) = len (vec_of [7, 7 :: real])"
    by (simp_all add: mat_of_def vec_of_def)
  have f: "fault_free quiet_env"
    by (simp add: fault_free_def quiet_env_def)
  have u: "[0..<2] = [0, 1]" "[0..<3] = [0, 1, 2]" by (simp_all add: upt_rec)
  show ?thesis
    using A x y d f mv_mt_threads_agree [OF A x y d f f, of 0 7]
    by (simp add: mat_of_def vec_of_def mv_row_def for_loop_fold u)
qed

section \<open>Dot product: the reduction\<close>







section \<open>AXPY\<close>

text \<open>
  Claim C8. For every scalar \<open>a\<close> and equal-length vectors \<open>x\<close>, \<open>y\<close> with their buffers
  present, \<open>ax_mt\<close> succeeds and leaves \<open>y[i] = a * x[i] + y\<^sub>0[i]\<close> at every index
  \<open>i\<close>, where \<open>y\<^sub>0\<close> is \<open>y\<close> before the call: the ranges of the workers cover every index
  once. The call runs in an environment where no allocation and no thread creation fails
  and the cancellation flag is never seen set.
\<close>

theorem ax_mt_correct:
  fixes x :: "('a::{plus,times}) Vec"
  assumes x: "vec_ok x" and y: "vec_ok y" and dims: "len x = len y" and ff: "fault_free e"
  shows "ax_mt e a (Some x) (Some y) ntv
         = (0, Some (y\<lparr>Vec.data := Some
              (map (\<lambda>i. a * the (Vec.data x) ! i + the (Vec.data y) ! i) [0..<unat (len y)])\<rparr>))"
proof -
  obtain yb where yb: "Vec.data y = Some yb" and ly: "length yb = unat (len y)"
    using y by (auto simp: vec_ok_def split: option.splits)
  have pres: "Vec.data x \<noteq> None"
    using x by (auto simp: vec_ok_def split: option.splits)
  let ?ntw = "coerce_nt ntv"
  have pos: "0 <s ?ntw" by (rule coerce_nt_pos)
  have ns: "\<forall>t i. \<not> g_stop e t i" and al: "ths_ok e" "jobs_ok e" and cr: "\<forall>t. create_ok e t"
    using ff by (simp_all add: fault_free_def)
  have st: "spawn (create_ok e) 0 (nat (sint ?ntw)) = nat (sint ?ntw)"
    by (rule spawn_all [OF cr]) simp
  have "run_workers (\<lambda>t. ax_worker (g_stop e t) a x (word_of_nat t) ?ntw) (nat (sint ?ntw)) yb
        = fold (\<lambda>i yb. yb[i := a * the (Vec.data x) ! i + yb ! i]) [0..<unat (len x)] yb"
    unfolding ax_worker_range by (rule run_workers_all [OF pos ns])
  also have "\<dots> = map (\<lambda>i. a * the (Vec.data x) ! i + yb ! i) [0..<unat (len x)]"
    using fold_update_all [of yb "unat (len x)" "\<lambda>i v. a * the (Vec.data x) ! i + v"] ly dims
    by simp
  finally show ?thesis
    using yb pres dims al st by (simp add: ax_mt_def Let_def)
qed

theorem ax_mt_correct_witness:
  "vec_ok (vec_of [1, 2, 3 :: real]) \<and> vec_ok (vec_of [10, 20, 30 :: real]) \<and>
   len (vec_of [1, 2, 3 :: real]) = len (vec_of [10, 20, 30 :: real]) \<and>
   fault_free quiet_env \<and>
   ax_mt quiet_env 2 (Some (vec_of [1, 2, 3 :: real])) (Some (vec_of [10, 20, 30])) 2
     = (0, Some (vec_of [12, 24, 36]))"
proof -
  have x: "vec_ok (vec_of [1, 2, 3 :: real])" and y: "vec_ok (vec_of [10, 20, 30 :: real])"
    by (simp_all add: vec_ok_def vec_of_def)
  have l: "len (vec_of [1, 2, 3 :: real]) = len (vec_of [10, 20, 30 :: real])"
    by (simp add: vec_of_def)
  have f: "fault_free quiet_env"
    by (simp add: fault_free_def quiet_env_def)
  have u: "[0..<3] = [0, 1, 2]" by (simp add: upt_rec)
  show ?thesis
    using x y l f ax_mt_correct [OF x y l f, of 2 2]
    by (simp add: vec_of_def u)
qed

section \<open>Matrix-matrix product: what one row pass computes\<close>

lemma fold_seg_length:
  "length (fold (\<lambda>col c. c[off + col := g col (c ! (off + col))]) xs c) = length c"
  by (rule fold_inv) simp_all

lemma fold_seg_nth:
  assumes "off + j1 \<le> length c" and "p < length c"
  shows "fold (\<lambda>col c. c[off + col := g col (c ! (off + col))]) [j0..<j1] c ! p
         = (if off + j0 \<le> p \<and> p < off + j1 then g (p - off) (c ! p) else c ! p)"
  using assms
proof (induction j1 arbitrary: p)
  case 0
  then show ?case by auto
next
  case (Suc j1)
  let ?f = "\<lambda>col c. c[off + col := g col (c ! (off + col))]"
  show ?case
  proof (cases "j0 \<le> j1")
    case True
    let ?prev = "fold ?f [j0..<j1] c"
    have len: "length ?prev = length c" by (rule fold_seg_length)
    have ih: "?prev ! q = (if off + j0 \<le> q \<and> q < off + j1 then g (q - off) (c ! q) else c ! q)"
      if "q < length c" for q
      using Suc.IH Suc.prems(1) that by simp
    have step: "fold ?f [j0..<Suc j1] c = ?prev[off + j1 := g j1 (?prev ! (off + j1))]"
      using True by simp
    have in_range: "off + j1 < length c" using Suc.prems(1) by simp
    show ?thesis
    proof (cases "p = off + j1")
      case True
      then show ?thesis
        using step len in_range ih [of "off + j1"] \<open>j0 \<le> j1\<close> by simp
    next
      case False
      then show ?thesis
        using step len ih [OF Suc.prems(2)] by auto
    qed
  next
    case False
    then show ?thesis by auto
  qed
qed

lemma mm_axpy_length: "length (mm_axpy a b K N i k j0 j1 c) = length c"
  unfolding mm_axpy_def Let_def for_loop_fold by (rule fold_inv) simp_all

lemma mm_axpy_nth:
  assumes "i * N + j1 \<le> length c" and "p < length c"
  shows "mm_axpy a b K N i k j0 j1 c ! p
         = (if i * N + j0 \<le> p \<and> p < i * N + j1
            then c ! p + a ! (i * K + k) * b ! (k * N + (p - i * N)) else c ! p)"
  using fold_seg_nth [OF assms, of "\<lambda>col v. v + a ! (i * K + k) * b ! (k * N + col)" j0]
  by (simp add: mm_axpy_def Let_def for_loop_fold)

lemma mm_ks_length:
  "length (fold (\<lambda>k c. mm_axpy a b K N i k j0 j1 c) ks c) = length c"
  by (rule fold_inv) (simp_all add: mm_axpy_length)

lemma mm_ks_nth:
  assumes "i * N + j1 \<le> length c" and "p < length c"
  shows "fold (\<lambda>k c. mm_axpy a b K N i k j0 j1 c) ks c ! p
         = (if i * N + j0 \<le> p \<and> p < i * N + j1
            then fold (\<lambda>k s. s + a ! (i * K + k) * b ! (k * N + (p - i * N))) ks (c ! p)
            else c ! p)"
  using assms
proof (induction ks arbitrary: c)
  case Nil
  then show ?case by simp
next
  case (Cons k ks)
  let ?c1 = "mm_axpy a b K N i k j0 j1 c"
  have len: "length ?c1 = length c" by (rule mm_axpy_length)
  have "fold (\<lambda>k c. mm_axpy a b K N i k j0 j1 c) ks ?c1 ! p
        = (if i * N + j0 \<le> p \<and> p < i * N + j1
           then fold (\<lambda>k s. s + a ! (i * K + k) * b ! (k * N + (p - i * N))) ks (?c1 ! p)
           else ?c1 ! p)"
    using Cons.IH [of ?c1] Cons.prems len by simp
  then show ?case
    using mm_axpy_nth [OF Cons.prems, of a b K k j0] by simp
qed

lemma mm_row_plain_length: "length (mm_row_plain a b K N i c) = length c"
  unfolding mm_row_plain_def for_loop_fold by (rule mm_ks_length)

lemma mm_row_plain_nth:
  assumes "i * N + N \<le> length c" and "p < length c"
  shows "mm_row_plain a b K N i c ! p
         = (if i * N \<le> p \<and> p < i * N + N then mm_cell a b K N i (p - i * N) 0 K (c ! p)
            else c ! p)"
  using mm_ks_nth [OF assms, of a b K 0 "[0..<K]"]
  by (simp add: mm_row_plain_def for_loop_fold mm_cell_def)

lemma mm_row_tiled_blocks:
  assumes "0 < T"
  shows "mm_row_tiled a b K N T i c
         = step_loop T
             (\<lambda>jj c. fold (\<lambda>k c. mm_axpy a b K N i k jj (min_sz (jj + T) N) c) [0..<K] c) 0 N c"
proof -
  have "step_loop T (\<lambda>kk. for_loop f kk (min_sz (kk + T) K)) 0 K = for_loop f 0 K" for f :: "nat \<Rightarrow> 'a list \<Rightarrow> 'a list"
    using step_loop_blocks [OF assms, of f K 0] by (intro ext) simp
  then show ?thesis
    by (simp add: mm_row_tiled_def Let_def for_loop_fold [abs_def])
qed

lemma mm_col_blocks_length:
  "length (step_loop T
     (\<lambda>jj c. fold (\<lambda>k c. mm_axpy a b K N i k jj (min_sz (jj + T) N) c) [0..<K] c) j N c)
   = length c"
  by (rule step_loop_inv) (simp_all add: mm_ks_length)

lemma mm_col_blocks_nth:
  assumes "0 < T" and "i * N + N \<le> length c" and "p < length c"
  shows "step_loop T
           (\<lambda>jj c. fold (\<lambda>k c. mm_axpy a b K N i k jj (min_sz (jj + T) N) c) [0..<K] c) j N c ! p
         = (if i * N + j \<le> p \<and> p < i * N + N then mm_cell a b K N i (p - i * N) 0 K (c ! p)
            else c ! p)"
  using assms
proof (induction T "\<lambda>jj c. fold (\<lambda>k c. mm_axpy a b K N i k jj (min_sz (jj + T) N) c) [0..<K] c"
         j N c rule: step_loop.induct)
  case (1 T j N c)
  let ?body = "\<lambda>jj c. fold (\<lambda>k c. mm_axpy a b K N i k jj (min_sz (jj + T) N) c) [0..<K] c"
  show ?case
  proof (cases "j < N")
    case True
    define m where "m = min_sz (j + T) N"
    define c1 where "c1 = ?body j c"
    have m: "j < m" "m \<le> N" "m \<le> j + T" "j + T < N \<longrightarrow> m = j + T" "\<not> j + T < N \<longrightarrow> m = N"
      using True "1.prems"(1) by (simp_all add: m_def min_sz_def)
    have len1: "length c1 = length c"
      by (simp add: c1_def mm_ks_length)
    have seg: "i * N + m \<le> length c" using m(2) "1.prems"(2) by simp
    have c1p: "c1 ! p = (if i * N + j \<le> p \<and> p < i * N + m
                         then mm_cell a b K N i (p - i * N) 0 K (c ! p) else c ! p)"
      using mm_ks_nth [OF seg "1.prems"(3), of a b K j "[0..<K]"]
      by (simp add: c1_def m_def mm_cell_def)
    have rec: "step_loop T ?body (j + T) N c1 ! p
               = (if i * N + (j + T) \<le> p \<and> p < i * N + N
                  then mm_cell a b K N i (p - i * N) 0 K (c1 ! p) else c1 ! p)"
      using "1.hyps" True "1.prems" len1 by (simp add: c1_def)
    have unfold: "step_loop T ?body j N c = step_loop T ?body (j + T) N c1"
      using True "1.prems"(1) by (subst step_loop.simps) (simp add: c1_def)
    show ?thesis
    proof (cases "j + T < N")
      case True
      then have "m = j + T" using m(4) by simp
      then show ?thesis unfolding unfold rec c1p using True by auto
    next
      case False
      then have "m = N" using m(5) by simp
      then show ?thesis unfolding unfold rec c1p using False by auto
    qed
  next
    case False
    then show ?thesis by (subst step_loop.simps) auto
  qed
qed

lemma mm_row_tiled_length:
  "0 < T \<Longrightarrow> length (mm_row_tiled a b K N T i c) = length c"
  by (simp add: mm_row_tiled_blocks mm_col_blocks_length)

lemma mm_row_tiled_plain:
  assumes T: "0 < T" and fit: "i * N + N \<le> length c"
  shows "mm_row_tiled a b K N T i c = mm_row_plain a b K N i c"
proof (rule nth_equalityI)
  show "length (mm_row_tiled a b K N T i c) = length (mm_row_plain a b K N i c)"
    by (simp add: mm_row_tiled_length [OF T] mm_row_plain_length)
next
  fix p
  assume "p < length (mm_row_tiled a b K N T i c)"
  then have p: "p < length c" by (simp add: mm_row_tiled_length [OF T])
  show "mm_row_tiled a b K N T i c ! p = mm_row_plain a b K N i c ! p"
    using mm_col_blocks_nth [OF T fit p, of a b K 0] mm_row_plain_nth [OF fit p, of a b K]
    by (simp add: mm_row_tiled_blocks [OF T])
qed

lemma range_hi_le:
  assumes "0 <s ntw" and "t < nat (sint ntw)"
  shows "range_hi R ntw t \<le> unat R"
proof -
  have "0 < nat (sint ntw)" using sint_pos_bounds(1) [OF assms(1)] by simp
  then show ?thesis
    using range_hi_boundary [OF assms] boundary_le [of "nat (sint ntw)" "Suc t" "unat R"] assms(2)
    by simp
qed

lemma mm_worker_range:
  "mm_worker stop A B (word_of_nat t) ntw tw
   = (if tw \<le>s 0
      then rows_loop stop (mm_row_plain (the (Mat.data A)) (the (Mat.data B)) (unat (cols A)) (unat (cols B)))
             (range_lo (rows A) ntw t) (range_hi (rows A) ntw t)
      else rows_loop stop
             (mm_row_tiled (the (Mat.data A)) (the (Mat.data B)) (unat (cols A)) (unat (cols B))
                (unat (scast tw :: size_t)))
             (range_lo (rows A) ntw t) (range_hi (rows A) ntw t))"
  by (rule ext) (simp add: mm_worker_def range_lo_def range_hi_def Let_def split_def)

lemma mm_worker_length:
  "length (mm_worker stop A B tid ntw tw cb) = length cb"
proof (cases "tw \<le>s 0")
  case True
  then show ?thesis
    by (simp add: mm_worker_def Let_def split_def)
       (rule rows_loop_inv, simp_all add: mm_row_plain_length)
next
  case False
  then have "0 <s tw" by (simp add: word_sless_alt word_sle_eq)
  then have T: "0 < unat (scast tw :: size_t)"
    using unat_scast_pos [of tw] sint_pos_bounds(1) [of tw] by simp
  show ?thesis
    using False
    by (simp add: mm_worker_def Let_def split_def)
       (rule rows_loop_inv, simp_all add: mm_row_tiled_length [OF T])
qed

lemma mm_worker_tile_irrelevant:
  assumes pos: "0 <s ntw" and t: "t < nat (sint ntw)"
    and len: "length cb = unat (rows A) * unat (cols B)"
  shows "mm_worker stop A B (word_of_nat t) ntw tw cb = mm_worker stop A B (word_of_nat t) ntw 0 cb"
proof (cases "tw \<le>s 0")
  case True
  then show ?thesis by (simp add: mm_worker_range)
next
  case False
  then have "0 <s tw" by (simp add: word_sless_alt word_sle_eq)
  then have T: "0 < unat (scast tw :: size_t)"
    using unat_scast_pos [of tw] sint_pos_bounds(1) [of tw] by simp
  let ?N = "unat (cols B)"
  let ?a = "the (Mat.data A)" and ?b = "the (Mat.data B)" and ?K = "unat (cols A)"
  let ?T = "unat (scast tw :: size_t)"
  have hi: "range_hi (rows A) ntw t \<le> unat (rows A)" by (rule range_hi_le [OF pos t])
  have "rows_loop stop (mm_row_tiled ?a ?b ?K ?N ?T) (range_lo (rows A) ntw t) (range_hi (rows A) ntw t) cb
        = rows_loop stop (mm_row_plain ?a ?b ?K ?N) (range_lo (rows A) ntw t) (range_hi (rows A) ntw t) cb"
  proof (rule rows_loop_cong [where P = "\<lambda>c. length c = unat (rows A) * ?N"])
    show "length cb = unat (rows A) * ?N" by (rule len)
  next
    fix j and s :: "'a list"
    assume j: "j < range_hi (rows A) ntw t" and s: "length s = unat (rows A) * ?N"
    have "Suc j \<le> unat (rows A)" using j hi by simp
    then have "Suc j * ?N \<le> unat (rows A) * ?N" by (rule mult_le_mono1)
    then have fit: "j * ?N + ?N \<le> length s" using s by simp
    show "mm_row_tiled ?a ?b ?K ?N ?T j s = mm_row_plain ?a ?b ?K ?N j s
          \<and> length (mm_row_tiled ?a ?b ?K ?N ?T j s) = unat (rows A) * ?N"
      using mm_row_tiled_plain [OF T fit] s by (simp add: mm_row_plain_length)
  qed
  then show ?thesis using False by (simp add: mm_worker_range)
qed

lemma fold_cong_inv:
  "P s \<Longrightarrow> (\<And>t s. t \<in> set ts \<Longrightarrow> P s \<Longrightarrow> f t s = g t s \<and> P (f t s)) \<Longrightarrow> fold f ts s = fold g ts s"
proof (induction ts arbitrary: s)
  case Nil
  then show ?case by simp
next
  case (Cons t ts)
  have "t \<in> set (t # ts)" by simp
  from Cons.prems(2) [OF this Cons.prems(1)]
  have fg: "f t s = g t s" and pf: "P (f t s)" by blast+
  have "\<And>u s. u \<in> set ts \<Longrightarrow> P s \<Longrightarrow> f u s = g u s \<and> P (f u s)"
    using Cons.prems(2) by (meson list.set_intros(2))
  then have "fold f ts (f t s) = fold g ts (f t s)"
    using Cons.IH [OF pf] by blast
  then show ?case using fg by simp
qed

lemma mm_workers_tile_irrelevant:
  assumes pos: "0 <s ntw" and st: "started \<le> nat (sint ntw)"
    and len: "length cb = unat (rows A) * unat (cols B)"
  shows "run_workers (\<lambda>t. mm_worker (stop t) A B (word_of_nat t) ntw tw) started cb
         = run_workers (\<lambda>t. mm_worker (stop t) A B (word_of_nat t) ntw 0) started cb"
  unfolding run_workers_def
proof (rule fold_cong_inv [where P = "\<lambda>c. length c = unat (rows A) * unat (cols B)"])
  show "length cb = unat (rows A) * unat (cols B)" by (rule len)
next
  fix t and s :: "'a list"
  assume "t \<in> set [0..<started]" and s: "length s = unat (rows A) * unat (cols B)"
  then have t: "t < nat (sint ntw)" using st by simp
  show "mm_worker (stop t) A B (word_of_nat t) ntw tw s = mm_worker (stop t) A B (word_of_nat t) ntw 0 s
        \<and> length (mm_worker (stop t) A B (word_of_nat t) ntw tw s) = unat (rows A) * unat (cols B)"
    using mm_worker_tile_irrelevant [OF pos t s] s by (simp add: mm_worker_length)
qed

lemma unat_bytes:
  fixes r c :: size_t
  assumes "8 * (unat r * unat c) < 2 ^ 64"
  shows "unat (8 * r * c) = 8 * (unat r * unat c)"
proof -
  have "unat (8 * r * c) = (unat (8 * r) * unat c) mod 2 ^ 64"
    by (simp add: unat_word_ariths)
  also have "unat (8 * r) = (8 * unat r) mod 2 ^ 64"
    by (simp add: unat_word_ariths)
  also have "((8 * unat r) mod 2 ^ 64 * unat c) mod 2 ^ 64 = (8 * unat r * unat c) mod 2 ^ 64"
    by (rule mod_mult_left_eq)
  also have "\<dots> = 8 * (unat r * unat c)"
    using assms by (simp add: mult.assoc)
  finally show ?thesis .
qed

lemma memset0_all:
  assumes "length buf = n"
  shows "memset0 buf (8 * n) = replicate n 0"
  using assms by (simp add: memset0_def)

section \<open>Matrix-matrix product: the whole call\<close>

lemma run_workers_mm_length:
  "length (run_workers (\<lambda>t. mm_worker (stop t) A B (word_of_nat t) ntw tw) started cb) = length cb"
  unfolding run_workers_def by (rule fold_inv) (simp_all add: mm_worker_length)

lemma mat_okD:
  assumes "mat_ok C"
  obtains c where "Mat.data C = Some c" and "length c = unat (rows C) * unat (cols C)"
    and "8 * length c < 2 ^ 64"
proof (cases "Mat.data C")
  case None
  then show ?thesis using assms by (simp add: mat_ok_def)
next
  case (Some c)
  have eq: "mat_ok C = (length c = unat (rows C) * unat (cols C) \<and> 8 * length c < 2 ^ 64)"
    unfolding mat_ok_def Some by (simp only: option.case)
  have "length c = unat (rows C) * unat (cols C) \<and> 8 * length c < 2 ^ 64"
    using assms unfolding eq .
  then show ?thesis using Some that by blast
qed

lemma mm_memset:
  assumes "mat_ok C"
  shows "memset0 (the (Mat.data C)) (unat (8 * rows C * cols C))
         = replicate (unat (rows C) * unat (cols C)) 0"
proof -
  obtain c where c: "Mat.data C = Some c" and len: "length c = unat (rows C) * unat (cols C)"
    and fit: "8 * length c < 2 ^ 64"
    using assms by (rule mat_okD)
  have "unat (8 * rows C * cols C) = 8 * (unat (rows C) * unat (cols C))"
    using fit unfolding len by (rule unat_bytes)
  then show ?thesis
    using memset0_all [OF len] c by simp
qed

text \<open>What a call that passes the checks does.\<close>

lemma mm_mt_valid:
  fixes A :: "('a::{zero,plus,times}) Mat"
  assumes A: "Mat.data A \<noteq> None" and B: "Mat.data B \<noteq> None" and C: "mat_ok C"
    and dims: "cols A = rows B" "rows C = rows A" "cols C = cols B"
  shows "mm_mt e (Some A) (Some B) (Some C) cfg
         = (if \<not> ths_ok e \<or> \<not> jobs_ok e
            then (- 1, Some (C\<lparr>Mat.data := Some (replicate (unat (rows C) * unat (cols C)) 0)\<rparr>))
            else (0, Some (C\<lparr>Mat.data := Some
                    (run_workers
                       (\<lambda>t. mm_worker (g_stop e t) A B (word_of_nat t) (coerce_nt (nt cfg)) (tile cfg))
                       (spawn (create_ok e) 0 (nat (sint (coerce_nt (nt cfg)))))
                       (replicate (unat (rows C) * unat (cols C)) 0))\<rparr>)))"
proof -
  obtain c where c: "Mat.data C = Some c" using C by (rule mat_okD)
  obtain a b where ab: "Mat.data A = Some a" "Mat.data B = Some b" using A B by auto
  have g: "\<not> (Some A = None \<or> Some B = None \<or> Some C = None \<or> Mat.data (the (Some A)) = None
              \<or> Mat.data (the (Some B)) = None \<or> Mat.data (the (Some C)) = None)"
    using c ab by simp
  show ?thesis
    unfolding mm_mt_def if_not_P [OF g] Let_def
    using dims mm_memset [OF C] by simp
qed

lemma mm_mt_reject:
  assumes "Ap = None \<or> Bp = None \<or> Mat.data (the Ap) = None \<or> Mat.data (the Bp) = None
           \<or> cols (the Ap) \<noteq> rows (the Bp) \<or> rows C \<noteq> rows (the Ap) \<or> cols C \<noteq> cols (the Bp)"
  shows "mm_mt e Ap Bp (Some C) cfg = (- 1, Some C)"
proof (cases "Ap = None \<or> Bp = None \<or> Mat.data (the Ap) = None \<or> Mat.data (the Bp) = None
               \<or> Mat.data C = None")
  case True
  then show ?thesis by (simp add: mm_mt_def)
next
  case False
  then have d: "cols (the Ap) \<noteq> rows (the Bp) \<or> rows C \<noteq> rows (the Ap) \<or> cols C \<noteq> cols (the Bp)"
    using assms by blast
  have g: "\<not> (Ap = None \<or> Bp = None \<or> Some C = None \<or> Mat.data (the Ap) = None
              \<or> Mat.data (the Bp) = None \<or> Mat.data (the (Some C)) = None)"
    using False by simp
  show ?thesis
    unfolding mm_mt_def if_not_P [OF g] Let_def
    using d by auto
qed


lemma row_cell_index:
  fixes r N p :: nat
  assumes "r * N \<le> p" and "p < r * N + N"
  shows "p div N = r" and "p mod N = p - r * N"
proof -
  define q where "q = p - r * N"
  have q: "p = q + r * N" using assms(1) unfolding q_def by linarith
  have qN: "q < N" using assms unfolding q_def by linarith
  show "p div N = r" unfolding q using qN by simp
  show "p mod N = p - r * N" unfolding q using qN by simp
qed

lemma mm_rows_length: "length (fold (mm_row_plain a b K N) is c) = length c"
  by (rule fold_inv) (simp_all add: mm_row_plain_length)

lemma mm_rows_nth:
  assumes "r * N \<le> length c" and "p < length c"
  shows "fold (mm_row_plain a b K N) [0..<r] c ! p
         = (if p < r * N then mm_cell a b K N (p div N) (p mod N) 0 K (c ! p) else c ! p)"
  using assms(1)
proof (induction r)
  case 0
  then show ?case by simp
next
  case (Suc r)
  let ?prev = "fold (mm_row_plain a b K N) [0..<r] c"
  have len: "length ?prev = length c" by (rule mm_rows_length)
  have fit0: "r * N + N \<le> length c" using Suc.prems by simp
  have fit: "r * N + N \<le> length ?prev" using fit0 unfolding len .
  have p': "p < length ?prev" using assms(2) unfolding len .
  have "r * N \<le> length c" using fit0 by simp
  then have ih: "?prev ! p = (if p < r * N then mm_cell a b K N (p div N) (p mod N) 0 K (c ! p) else c ! p)"
    by (rule Suc.IH)
  have "fold (mm_row_plain a b K N) [0..<Suc r] c = mm_row_plain a b K N r ?prev"
    by simp
  then have step: "fold (mm_row_plain a b K N) [0..<Suc r] c ! p
              = (if r * N \<le> p \<and> p < r * N + N
                 then mm_cell a b K N r (p - r * N) 0 K (?prev ! p) else ?prev ! p)"
    using mm_row_plain_nth [OF fit p', of a b K] by simp
  have sr: "Suc r * N = r * N + N" by simp
  show ?case
  proof (cases "r * N \<le> p \<and> p < r * N + N")
    case True
    then have "p div N = r" "p mod N = p - r * N"
      using row_cell_index [of r N p] by simp_all
    then show ?thesis
      unfolding step ih sr using True by simp
  next
    case False
    show ?thesis
    proof (cases "p < r * N")
      case True
      then show ?thesis unfolding step ih sr by simp
    next
      case False
      then have "\<not> p < r * N + N" using \<open>\<not> (r * N \<le> p \<and> p < r * N + N)\<close> by simp
      then show ?thesis unfolding step ih sr using False by simp
    qed
  qed
qed

lemma mm_mt_fault_free:
  fixes A :: "('a::{zero,plus,times}) Mat"
  assumes A: "mat_ok A" and B: "mat_ok B" and C: "mat_ok C"
    and dims: "cols A = rows B" "rows C = rows A" "cols C = cols B"
    and ff: "fault_free e"
  shows "mm_mt e (Some A) (Some B) (Some C) cfg
         = (0, Some (C\<lparr>Mat.data := Some
              (map (\<lambda>p. mm_cell (the (Mat.data A)) (the (Mat.data B)) (unat (cols A)) (unat (cols B))
                          (p div unat (cols B)) (p mod unat (cols B)) 0 (unat (cols A)) 0)
                 [0..<unat (rows A) * unat (cols B)])\<rparr>))"
proof -
  let ?ntw = "coerce_nt (nt cfg)"
  let ?n = "nat (sint ?ntw)"
  let ?L = "unat (rows A) * unat (cols B)"
  let ?a = "the (Mat.data A)" and ?b = "the (Mat.data B)"
  let ?K = "unat (cols A)" and ?N = "unat (cols B)"
  let ?z = "replicate ?L (0::'a)"
  have pres: "Mat.data A \<noteq> None" "Mat.data B \<noteq> None"
    using A B by (auto simp: mat_ok_def split: option.splits)
  have pos: "0 <s ?ntw" by (rule coerce_nt_pos)
  have ns: "\<forall>t i. \<not> g_stop e t i" and al: "ths_ok e" "jobs_ok e" and cr: "\<forall>t. create_ok e t"
    using ff by (simp_all add: fault_free_def)
  have st: "spawn (create_ok e) 0 ?n = ?n"
    by (rule spawn_all [OF cr]) simp
  have "run_workers (\<lambda>t. mm_worker (g_stop e t) A B (word_of_nat t) ?ntw (tile cfg)) ?n ?z
        = run_workers (\<lambda>t. mm_worker (g_stop e t) A B (word_of_nat t) ?ntw 0) ?n ?z"
    by (rule mm_workers_tile_irrelevant [OF pos]) simp_all
  also have "\<dots> = run_workers (\<lambda>t. rows_loop (g_stop e t) (mm_row_plain ?a ?b ?K ?N)
                        (range_lo (rows A) ?ntw t) (range_hi (rows A) ?ntw t)) ?n ?z"
    by (simp add: mm_worker_range word_sle_eq)
  also have "\<dots> = fold (mm_row_plain ?a ?b ?K ?N) [0..<unat (rows A)] ?z"
    by (rule run_workers_all [OF pos ns])
  also have "\<dots> = map (\<lambda>p. mm_cell ?a ?b ?K ?N (p div ?N) (p mod ?N) 0 ?K 0) [0..<?L]"
  proof (rule nth_equalityI)
    show "length (fold (mm_row_plain ?a ?b ?K ?N) [0..<unat (rows A)] ?z)
          = length (map (\<lambda>p. mm_cell ?a ?b ?K ?N (p div ?N) (p mod ?N) 0 ?K 0) [0..<?L])"
      by (simp add: mm_rows_length)
  next
    fix p
    assume "p < length (fold (mm_row_plain ?a ?b ?K ?N) [0..<unat (rows A)] ?z)"
    then have p: "p < ?L" by (simp add: mm_rows_length)
    then show "fold (mm_row_plain ?a ?b ?K ?N) [0..<unat (rows A)] ?z ! p
               = map (\<lambda>p. mm_cell ?a ?b ?K ?N (p div ?N) (p mod ?N) 0 ?K 0) [0..<?L] ! p"
      using mm_rows_nth [of "unat (rows A)" ?N ?z p ?a ?b ?K] by simp
  qed
  finally show ?thesis
    using mm_mt_valid [OF pres C dims, of e cfg] al st dims by simp
qed

section \<open>Matrix-matrix product: tiled against untiled\<close>

lemma mm_mt_tile_irrelevant:
  fixes A :: "('a::{zero,plus,times}) Mat"
  assumes A: "mat_ok A" and B: "mat_ok B" and C: "mat_ok C"
    and dims: "cols A = rows B" "rows C = rows A" "cols C = cols B"
  shows "mm_mt e (Some A) (Some B) (Some C) \<lparr>nt = n, tile = tw\<rparr>
         = mm_mt e (Some A) (Some B) (Some C) \<lparr>nt = n, tile = 0\<rparr>"
proof -
  have pres: "Mat.data A \<noteq> None" "Mat.data B \<noteq> None"
    using A B by (auto simp: mat_ok_def split: option.splits)
  let ?ntw = "coerce_nt n"
  have pos: "0 <s ?ntw" by (rule coerce_nt_pos)
  have st: "spawn (create_ok e) 0 (nat (sint ?ntw)) \<le> nat (sint ?ntw)"
    by (rule spawn_le) simp
  have len: "length (replicate (unat (rows C) * unat (cols C)) (0::'a)) = unat (rows A) * unat (cols B)"
    using dims by simp
  show ?thesis
    unfolding mm_mt_valid [OF pres C dims]
    using mm_workers_tile_irrelevant [OF pos st len, of "g_stop e" tw] by simp
qed

lemma upt_small: "[0..<2] = [0, 1]" "[0..<3] = [0, 1, 2]" "[0..<4] = [0, 1, 2, 3]"
  by (simp_all add: upt_rec)

text \<open>
  Claim C2. For every valid \<open>A\<close>, \<open>B\<close> with \<open>A.cols = B.rows\<close>, every output \<open>C\<close> with
  \<open>C.rows = A.rows\<close> and \<open>C.cols = B.cols\<close>, and every thread count, \<open>mm_mt\<close> returns
  the same status and leaves the same \<open>C\<close> for any two tile settings \<open>tw\<close> and \<open>tw'\<close>,
  in particular for tiling enabled (\<open>tw > 0\<close>, e.g. 16) and disabled (\<open>tw' \<le> 0\<close>): in
  both loops every cell \<open>(i, j)\<close> receives the contributions \<open>A[i,k] * B[k,j]\<close> once each and
  in the order \<open>k = 0, 1, \<dots>\<close>, so the two outputs are the same values under any
  arithmetic, floating point included. This holds in every call environment, the same one
  on both sides. When no allocation and no thread creation fails and the flag is never
  seen set, cell \<open>(i, j)\<close> ends as \<open>((0 + A[i,0] * B[0,j]) + A[i,1] * B[1,j]) + \<dots>\<close>, which
  depends neither on the tile edge nor on the thread count.
\<close>

theorem mm_mt_tiling_equiv:
  fixes A :: "('a::{zero,plus,times}) Mat"
  assumes A: "mat_ok A" and B: "mat_ok B" and C: "mat_ok C"
    and dims: "cols A = rows B" "rows C = rows A" "cols C = cols B"
  shows "mm_mt e (Some A) (Some B) (Some C) \<lparr>nt = n, tile = tw\<rparr>
         = mm_mt e (Some A) (Some B) (Some C) \<lparr>nt = n, tile = tw'\<rparr> \<and>
         (fault_free e \<longrightarrow>
          mm_mt e (Some A) (Some B) (Some C) \<lparr>nt = n, tile = tw\<rparr>
          = (0, Some (C\<lparr>Mat.data := Some
               (map (\<lambda>p. mm_cell (the (Mat.data A)) (the (Mat.data B)) (unat (cols A)) (unat (cols B))
                          (p div unat (cols B)) (p mod unat (cols B)) 0 (unat (cols A)) 0)
                  [0..<unat (rows A) * unat (cols B)])\<rparr>)))"
proof
  show "mm_mt e (Some A) (Some B) (Some C) \<lparr>nt = n, tile = tw\<rparr>
        = mm_mt e (Some A) (Some B) (Some C) \<lparr>nt = n, tile = tw'\<rparr>"
    using mm_mt_tile_irrelevant [OF A B C dims, of e n tw]
      mm_mt_tile_irrelevant [OF A B C dims, of e n tw'] by simp
next
  show "fault_free e \<longrightarrow>
          mm_mt e (Some A) (Some B) (Some C) \<lparr>nt = n, tile = tw\<rparr>
          = (0, Some (C\<lparr>Mat.data := Some
               (map (\<lambda>p. mm_cell (the (Mat.data A)) (the (Mat.data B)) (unat (cols A)) (unat (cols B))
                          (p div unat (cols B)) (p mod unat (cols B)) 0 (unat (cols A)) 0)
                  [0..<unat (rows A) * unat (cols B)])\<rparr>))"
    using mm_mt_fault_free [OF A B C dims] by blast
qed

theorem mm_mt_tiling_equiv_witness:
  "mat_ok (mat_of 2 3 [1, 2, 3, 4, 5, 6 :: real]) \<and> mat_ok (mat_of 3 2 [1, 0, 0, 1, 1, 1 :: real]) \<and>
   mat_ok (mat_of 2 2 [9, 9, 9, 9 :: real]) \<and>
   cols (mat_of 2 3 [1, 2, 3, 4, 5, 6 :: real]) = rows (mat_of 3 2 [1, 0, 0, 1, 1, 1 :: real]) \<and>
   rows (mat_of 2 2 [9, 9, 9, 9 :: real]) = rows (mat_of 2 3 [1, 2, 3, 4, 5, 6 :: real]) \<and>
   cols (mat_of 2 2 [9, 9, 9, 9 :: real]) = cols (mat_of 3 2 [1, 0, 0, 1, 1, 1 :: real]) \<and>
   fault_free quiet_env \<and>
   mm_mt quiet_env (Some (mat_of 2 3 [1, 2, 3, 4, 5, 6 :: real])) (Some (mat_of 3 2 [1, 0, 0, 1, 1, 1]))
       (Some (mat_of 2 2 [9, 9, 9, 9])) \<lparr>nt = 3, tile = 16\<rparr>
     = mm_mt quiet_env (Some (mat_of 2 3 [1, 2, 3, 4, 5, 6 :: real])) (Some (mat_of 3 2 [1, 0, 0, 1, 1, 1]))
         (Some (mat_of 2 2 [9, 9, 9, 9])) \<lparr>nt = 3, tile = 0\<rparr> \<and>
   mm_mt quiet_env (Some (mat_of 2 3 [1, 2, 3, 4, 5, 6 :: real])) (Some (mat_of 3 2 [1, 0, 0, 1, 1, 1]))
       (Some (mat_of 2 2 [9, 9, 9, 9])) \<lparr>nt = 3, tile = 16\<rparr>
     = (0, Some (mat_of 2 2 [4, 5, 10, 11]))"
proof -
  let ?A = "mat_of 2 3 [1, 2, 3, 4, 5, 6 :: real]"
  let ?B = "mat_of 3 2 [1, 0, 0, 1, 1, 1 :: real]"
  let ?C = "mat_of 2 2 [9, 9, 9, 9 :: real]"
  have A: "mat_ok ?A" and B: "mat_ok ?B" and C: "mat_ok ?C"
    by (simp_all add: mat_ok_def mat_of_def)
  have d: "cols ?A = rows ?B" "rows ?C = rows ?A" "cols ?C = cols ?B"
    by (simp_all add: mat_of_def)
  have f: "fault_free quiet_env"
    by (simp add: fault_free_def quiet_env_def)
  note t = mm_mt_tiling_equiv [OF A B C d, of quiet_env 3 16 0]
  have e1: "mm_mt quiet_env (Some ?A) (Some ?B) (Some ?C) \<lparr>nt = 3, tile = 16\<rparr>
            = mm_mt quiet_env (Some ?A) (Some ?B) (Some ?C) \<lparr>nt = 3, tile = 0\<rparr>"
    using t by blast
  have "mm_mt quiet_env (Some ?A) (Some ?B) (Some ?C) \<lparr>nt = 3, tile = 16\<rparr>
        = (0, Some (?C\<lparr>Mat.data := Some
               (map (\<lambda>p. mm_cell (the (Mat.data ?A)) (the (Mat.data ?B)) (unat (cols ?A)) (unat (cols ?B))
                          (p div unat (cols ?B)) (p mod unat (cols ?B)) 0 (unat (cols ?A)) 0)
                  [0..<unat (rows ?A) * unat (cols ?B)])\<rparr>))"
    using t f by blast
  then have e2: "mm_mt quiet_env (Some ?A) (Some ?B) (Some ?C) \<lparr>nt = 3, tile = 16\<rparr>
                 = (0, Some (mat_of 2 2 [4, 5, 10, 11]))"
    by (simp add: mat_of_def mm_cell_def upt_small)
  show ?thesis using A B C d f e1 e2 by simp
qed

section \<open>Matrix-matrix product: repeated calls\<close>



section \<open>Failing calls\<close>

text \<open>
  A call of \<open>mv_mt\<close>, \<open>dt_mt\<close> or \<open>ax_mt\<close> that does not return 0 (absent pointer or
  buffer, dimension mismatch, failed scratch allocation) leaves its output as it was, and
  so does \<open>mm_mt\<close> when the dimensions do not match.
\<close>

lemma mv_mt_failure_untouched:
  assumes "fst (mv_mt e Ap xp yp cfg) \<noteq> 0"
  shows "snd (mv_mt e Ap xp yp cfg) = yp"
proof (rule ccontr)
  assume "snd (mv_mt e Ap xp yp cfg) \<noteq> yp"
  then have "fst (mv_mt e Ap xp yp cfg) = 0"
    unfolding mv_mt_def Let_def by (simp split: if_splits)
  then show False using assms by simp
qed

lemma dt_mt_failure_untouched:
  assumes "fst (dt_mt e xp yp outp ntv) \<noteq> 0"
  shows "snd (dt_mt e xp yp outp ntv) = outp"
proof (rule ccontr)
  assume "snd (dt_mt e xp yp outp ntv) \<noteq> outp"
  then have "fst (dt_mt e xp yp outp ntv) = 0"
    unfolding dt_mt_def Let_def by (simp split: if_splits)
  then show False using assms by simp
qed

lemma ax_mt_failure_untouched:
  assumes "fst (ax_mt e a xp yp ntv) \<noteq> 0"
  shows "snd (ax_mt e a xp yp ntv) = yp"
proof (rule ccontr)
  assume "snd (ax_mt e a xp yp ntv) \<noteq> yp"
  then have "fst (ax_mt e a xp yp ntv) = 0"
    unfolding ax_mt_def Let_def by (simp split: if_splits)
  then show False using assms by simp
qed

lemma mm_mt_mismatch_untouched:
  "cols A \<noteq> rows B \<or> rows C \<noteq> rows A \<or> cols C \<noteq> cols B
   \<Longrightarrow> mm_mt e (Some A) (Some B) (Some C) cfg = (- 1, Some C)"
  by (rule mm_mt_reject) simp

text \<open>
  Claim C4. The claim is that a call of any of the four kernels that fails with a dimension
  mismatch or with a failed allocation of the thread handles or job descriptors fails
  before a worker is dispatched and leaves the output (\<open>y\<close>, \<open>C\<close>, \<open>*out\<close>) exactly as
  it was. The lemmas above show this for \<open>mv_mt\<close>, \<open>dt_mt\<close>, \<open>ax_mt\<close> and for the
  mismatch of \<open>mm_mt\<close>. But \<open>mm_mt\<close> runs its \<^verbatim>\<open>memset\<close> before it allocates: when
  the allocation of the thread handles fails, the call on 1x1 matrices below returns -1 and
  \<open>C\<close>, which held 5, holds 0.
\<close>

theorem mm_mt_alloc_failure_clears:
  "mm_mt (quiet_env\<lparr>ths_ok := False\<rparr>) (Some (mat_of 1 1 [1 :: real])) (Some (mat_of 1 1 [1]))
     (Some (mat_of 1 1 [5])) \<lparr>nt = 1, tile = 0\<rparr>
   = (- 1, Some (mat_of 1 1 [0]))"
proof -
  have C: "mat_ok (mat_of 1 1 [5 :: real])"
    by (simp add: mat_ok_def mat_of_def)
  have "mm_mt (quiet_env\<lparr>ths_ok := False\<rparr>) (Some (mat_of 1 1 [1 :: real])) (Some (mat_of 1 1 [1]))
          (Some (mat_of 1 1 [5])) \<lparr>nt = 1, tile = 0\<rparr>
        = (- 1, Some ((mat_of 1 1 [5 :: real])\<lparr>Mat.data := Some (replicate (unat (rows (mat_of 1 1 [5 :: real])) * unat (cols (mat_of 1 1 [5 :: real]))) 0)\<rparr>))"
    by (subst mm_mt_valid [OF _ _ C]) (simp_all add: mat_of_def quiet_env_def)
  then show ?thesis by (simp add: mat_of_def)
qed

theorem mm_mt_alloc_failure_clears_witness:
  "fst (mm_mt (quiet_env\<lparr>ths_ok := False\<rparr>) (Some (mat_of 1 1 [1 :: real])) (Some (mat_of 1 1 [1]))
          (Some (mat_of 1 1 [5])) \<lparr>nt = 1, tile = 0\<rparr>) = - 1 \<and>
   snd (mm_mt (quiet_env\<lparr>ths_ok := False\<rparr>) (Some (mat_of 1 1 [1 :: real])) (Some (mat_of 1 1 [1]))
          (Some (mat_of 1 1 [5])) \<lparr>nt = 1, tile = 0\<rparr>) \<noteq> Some (mat_of 1 1 [5])"
  using mm_mt_alloc_failure_clears by (simp add: mat_of_def)

section \<open>Checked execution: lifting a loop\<close>

text \<open>
  If the checked body of a loop, on every state that satisfies an invariant, does not fail
  and does what the unchecked body does, then the checked loop does not fail and does what
  the unchecked loop does.
\<close>

lemma vec_okD:
  assumes "vec_ok v"
  obtains b where "Vec.data v = Some b" and "length b = unat (len v)"
proof (cases "Vec.data v")
  case None
  then show ?thesis using assms by (simp add: vec_ok_def)
next
  case (Some b)
  then have "length b = unat (len v)" using assms by (simp add: vec_ok_def)
  then show ?thesis using Some that by blast
qed

lemma fold_chk:
  assumes "P s"
    and "\<And>j s. j \<in> set xs \<Longrightarrow> P s \<Longrightarrow> bc j (Some s) = Some (b j s) \<and> P (b j s)"
  shows "fold bc xs (Some s) = Some (fold b xs s)"
  using assms
proof (induction xs arbitrary: s)
  case Nil
  then show ?case by simp
next
  case (Cons j xs)
  have st: "bc j (Some s) = Some (b j s)" and p: "P (b j s)"
    using Cons.prems(2) [of j s] Cons.prems(1) by simp_all
  have "fold bc xs (Some (b j s)) = Some (fold b xs (b j s))"
    by (rule Cons.IH [OF p]) (use Cons.prems(2) in simp)
  then show ?case using st by simp
qed

lemma for_loop_chk:
  assumes "P s"
    and "\<And>j s. i \<le> j \<Longrightarrow> j < n \<Longrightarrow> P s \<Longrightarrow> bc j (Some s) = Some (b j s) \<and> P (b j s)"
  shows "for_loop bc i n (Some s) = Some (for_loop b i n s)"
  unfolding for_loop_fold by (rule fold_chk [where P = P]) (use assms in simp_all)

lemma rows_loop_chk:
  assumes "P s"
    and "\<And>j s. i \<le> j \<Longrightarrow> j < i1 \<Longrightarrow> P s \<Longrightarrow> bc j (Some s) = Some (b j s) \<and> P (b j s)"
  shows "rows_loop stop bc i i1 (Some s) = Some (rows_loop stop b i i1 s)"
  using assms
proof (induction stop b i i1 s rule: rows_loop.induct)
  case (1 stop b i i1 s)
  show ?case
  proof (cases "i < i1 \<and> \<not> stop i")
    case True
    have st: "bc i (Some s) = Some (b i s)" and p: "P (b i s)"
      using "1.prems"(2) [of i s] "1.prems"(1) True by simp_all
    have "rows_loop stop bc (Suc i) i1 (Some (b i s)) = Some (rows_loop stop b (Suc i) i1 (b i s))"
      using "1.IH" True p "1.prems"(2) Suc_leD by blast
    then show ?thesis
      using True st by (subst rows_loop.simps, subst (2) rows_loop.simps) simp
  next
    case False
    then show ?thesis by (subst rows_loop.simps, subst (2) rows_loop.simps) auto
  qed
qed

lemma step_loop_chk:
  assumes "P s"
    and "\<And>j s. j0 \<le> j \<Longrightarrow> j < n \<Longrightarrow> P s \<Longrightarrow> bc j (Some s) = Some (b j s) \<and> P (b j s)"
  shows "step_loop T bc j0 n (Some s) = Some (step_loop T b j0 n s)"
  using assms
proof (induction T b j0 n s rule: step_loop.induct)
  case (1 T b j0 n s)
  show ?case
  proof (cases "j0 < n \<and> 0 < T")
    case True
    have st: "bc j0 (Some s) = Some (b j0 s)" and p: "P (b j0 s)"
      using "1.prems"(2) [of j0 s] "1.prems"(1) True by simp_all
    have "\<And>j s. j0 + T \<le> j \<Longrightarrow> j < n \<Longrightarrow> P s \<Longrightarrow> bc j (Some s) = Some (b j s) \<and> P (b j s)"
      using "1.prems"(2) by simp
    then have "step_loop T bc (j0 + T) n (Some (b j0 s)) = Some (step_loop T b (j0 + T) n (b j0 s))"
      using "1.IH" True p by blast
    then show ?thesis
      using True st by (subst step_loop.simps, subst (2) step_loop.simps) simp
  next
    case False
    then show ?thesis by (subst step_loop.simps, subst (2) step_loop.simps) auto
  qed
qed


lemma load_in: "i < length b \<Longrightarrow> load b i = Some (b ! i)"
  by (simp add: load_def)

lemma store_in: "i < length b \<Longrightarrow> store b i v = Some (b[i := v])"
  by (simp add: store_def)

lemma cell_in:
  fixes i R k K :: nat
  assumes "i < R" and "k < K"
  shows "i * K + k < R * K"
proof -
  have "Suc i * K \<le> R * K" using assms(1) by (intro mult_le_mono1) simp
  then show ?thesis using assms(2) by simp
qed

lemma row_range_chk_pos:
  assumes "0 <s ntw"
  shows "row_range_chk R tid ntw = Some (row_range R tid ntw)"
proof -
  have "0 < unat (scast ntw :: size_t)"
    using unat_scast_pos [OF assms] sint_pos_bounds(1) [OF assms] by simp
  then have "(scast ntw :: size_t) \<noteq> 0" by auto
  then show ?thesis by (simp add: row_range_chk_def)
qed

lemma run_workers_chk_safe:
  assumes "P s"
    and "\<And>t s. t < started \<Longrightarrow> P s \<Longrightarrow> wc t s = Some (w t s) \<and> P (w t s)"
  shows "run_workers_chk wc started s = Some (run_workers w started s)"
  unfolding run_workers_chk_def run_workers_def
  by (rule fold_chk [where P = P]) (use assms in simp_all)

section \<open>Matrix-vector product: no access outside a buffer\<close>

lemma mv_row_chk_safe:
  assumes "i * n + n \<le> length a" and "n \<le> length xb"
  shows "mv_row_chk a xb n i = Some (mv_row a xb n i)"
  unfolding mv_row_chk_def mv_row_def
  by (rule for_loop_chk [where P = "\<lambda>_. True"]) (use assms in \<open>simp_all add: load_in\<close>)

lemma mv_worker_chk_safe:
  assumes pos: "0 <s ntw" and t: "t < nat (sint ntw)"
    and a: "Mat.data A = Some a" "length a = unat (rows A) * unat (cols A)"
    and x: "Vec.data x = Some xb" "length xb = unat (cols A)"
    and y: "length yb = unat (rows A)"
  shows "mv_worker_chk stop A x (word_of_nat t) ntw yb
         = Some (mv_worker stop A x (word_of_nat t) ntw yb)"
proof -
  have hi: "range_hi (rows A) ntw t \<le> unat (rows A)" by (rule range_hi_le [OF pos t])
  have "rows_loop stop
          (\<lambda>i st. do { yb \<leftarrow> st; sum \<leftarrow> mv_row_chk a xb (unat (cols A)) i; store yb i sum })
          (range_lo (rows A) ntw t) (range_hi (rows A) ntw t) (Some yb)
        = Some (rows_loop stop (\<lambda>i yb. yb[i := mv_row a xb (unat (cols A)) i])
                  (range_lo (rows A) ntw t) (range_hi (rows A) ntw t) yb)"
  proof (rule rows_loop_chk [where P = "\<lambda>s. length s = unat (rows A)"])
    show "length yb = unat (rows A)" by (rule y)
  next
    fix j and s :: "'a list"
    assume j: "j < range_hi (rows A) ntw t" and s: "length s = unat (rows A)"
    have jR: "j < unat (rows A)" using j hi by simp
    have "Suc j * unat (cols A) \<le> unat (rows A) * unat (cols A)"
      using jR by (intro mult_le_mono1) simp
    then have "j * unat (cols A) + unat (cols A) \<le> length a" using a(2) by simp
    then have "mv_row_chk a xb (unat (cols A)) j = Some (mv_row a xb (unat (cols A)) j)"
      by (rule mv_row_chk_safe) (simp add: x(2))
    then show "do { yb \<leftarrow> Some s; sum \<leftarrow> mv_row_chk a xb (unat (cols A)) j; store yb j sum }
               = Some (s[j := mv_row a xb (unat (cols A)) j])
               \<and> length (s[j := mv_row a xb (unat (cols A)) j]) = unat (rows A)"
      using jR s by (simp add: store_in)
  qed
  then show ?thesis
    by (simp add: mv_worker_chk_def mv_worker_def row_range_chk_pos [OF pos] range_lo_def
          range_hi_def split_def Let_def a(1) x(1) buffer_def)
qed

lemma mv_worker_length: "length (mv_worker stop A x tid ntw yb) = length yb"
  unfolding mv_worker_def Let_def split_def by (rule rows_loop_inv) simp_all

lemma mv_mt_chk_safe:
  fixes A :: "('a::{zero,plus,times}) Mat"
  assumes A: "mat_ok A" and x: "vec_ok x" and y: "vec_ok y"
    and dims: "cols A = len x" "rows A = len y"
  shows "mv_mt_chk e (Some A) (Some x) (Some y) cfg = Some (mv_mt e (Some A) (Some x) (Some y) cfg)"
proof -
  obtain a where a: "Mat.data A = Some a" "length a = unat (rows A) * unat (cols A)"
    using A by (rule mat_okD)
  obtain xb where xb: "Vec.data x = Some xb" "length xb = unat (len x)" using x by (rule vec_okD)
  obtain yb where yb: "Vec.data y = Some yb" "length yb = unat (len y)" using y by (rule vec_okD)
  let ?ntw = "coerce_nt (nt cfg)"
  let ?st = "spawn (create_ok e) 0 (nat (sint ?ntw))"
  have pos: "0 <s ?ntw" by (rule coerce_nt_pos)
  have st: "?st \<le> nat (sint ?ntw)" by (rule spawn_le) simp
  have "run_workers_chk (\<lambda>t. mv_worker_chk (g_stop e t) A x (word_of_nat t) ?ntw) ?st yb
        = Some (run_workers (\<lambda>t. mv_worker (g_stop e t) A x (word_of_nat t) ?ntw) ?st yb)"
  proof (rule run_workers_chk_safe [where P = "\<lambda>s. length s = unat (rows A)"])
    show "length yb = unat (rows A)" using yb(2) dims by simp
  next
    fix t and s :: "'a list"
    assume "t < ?st" and s: "length s = unat (rows A)"
    then have t: "t < nat (sint ?ntw)" using st by simp
    have "length xb = unat (cols A)" using xb(2) dims by simp
    then show "mv_worker_chk (g_stop e t) A x (word_of_nat t) ?ntw s
               = Some (mv_worker (g_stop e t) A x (word_of_nat t) ?ntw s)
               \<and> length (mv_worker (g_stop e t) A x (word_of_nat t) ?ntw s) = unat (rows A)"
      using mv_worker_chk_safe [OF pos t a xb(1) _ s] s by (simp add: mv_worker_length)
  qed
  then show ?thesis
    using a(1) xb(1) yb(1) by (simp add: mv_mt_chk_def mv_mt_def Let_def buffer_def)
qed

text \<open>
  The checks are not idle: when \<open>y\<close> claims one element and its buffer has none, the
  store to \<open>y[0]\<close> is outside the buffer and the checked call fails, while the unchecked
  definition returns 0.
\<close>

lemma mv_mt_chk_overrun:
  "mv_mt_chk quiet_env (Some (mat_of 1 1 [1 :: real])) (Some (vec_of [1]))
     (Some \<lparr>len = 1, data = Some []\<rparr>) \<lparr>nt = 1, tile = 0\<rparr> = None \<and>
   mv_mt quiet_env (Some (mat_of 1 1 [1 :: real])) (Some (vec_of [1]))
     (Some \<lparr>len = 1, data = Some []\<rparr>) \<lparr>nt = 1, tile = 0\<rparr>
   = (0, Some \<lparr>len = 1, data = Some []\<rparr>)"
proof -
  have sp: "spawn (\<lambda>t. True) 0 (Suc 0) = Suc 0"
    by (subst spawn.simps, subst spawn.simps) simp
  have one: "rows_loop (\<lambda>i. False) body 0 (Suc 0) s = body 0 s" for body and s :: 's
    by (subst rows_loop.simps, subst rows_loop.simps) simp
  have rr: "row_range 1 0 1 = (0, 1)"
    by (simp add: row_range_def Let_def word_sless_alt)
  have rc: "row_range_chk 1 0 1 = Some (0, 1)"
    by (simp add: row_range_chk_def rr)
  have row: "mv_row_chk [1 :: real] [1] (Suc 0) 0 = Some 1"
    unfolding mv_row_chk_def for_loop_fold by (simp add: load_def)
  have w: "mv_worker_chk (\<lambda>i. False) \<lparr>rows = 1, cols = 1, data = Some [1 :: real]\<rparr>
             \<lparr>len = 1, data = Some [1]\<rparr> 0 1 [] = None"
    by (simp add: mv_worker_chk_def rc one buffer_def row store_def)
  have w': "mv_worker (\<lambda>i. False) \<lparr>rows = 1, cols = 1, data = Some [1 :: real]\<rparr>
              \<lparr>len = 1, data = Some [1]\<rparr> 0 1 [] = []"
    by (simp add: mv_worker_def rr one)
  show ?thesis
    by (simp add: mv_mt_chk_def mv_mt_def quiet_env_def coerce_nt_def word_sle_eq sp
          run_workers_chk_def run_workers_def w w' Let_def buffer_def mat_of_def vec_of_def)
qed

section \<open>AXPY and dot product: no access outside a buffer\<close>

lemma ax_worker_chk_safe:
  assumes pos: "0 <s ntw" and t: "t < nat (sint ntw)"
    and x: "Vec.data x = Some xb" "length xb = unat (len x)"
    and y: "length yb = unat (len x)"
  shows "ax_worker_chk stop a x (word_of_nat t) ntw yb
         = Some (ax_worker stop a x (word_of_nat t) ntw yb)"
proof -
  have hi: "range_hi (len x) ntw t \<le> unat (len x)" by (rule range_hi_le [OF pos t])
  have "rows_loop stop
          (\<lambda>i st. do { yb \<leftarrow> st; xv \<leftarrow> load xb i; yv \<leftarrow> load yb i; store yb i (a * xv + yv) })
          (range_lo (len x) ntw t) (range_hi (len x) ntw t) (Some yb)
        = Some (rows_loop stop (\<lambda>i yb. yb[i := a * xb ! i + yb ! i])
                  (range_lo (len x) ntw t) (range_hi (len x) ntw t) yb)"
  proof (rule rows_loop_chk [where P = "\<lambda>s. length s = unat (len x)"])
    show "length yb = unat (len x)" by (rule y)
  next
    fix j and s :: "'a list"
    assume j: "j < range_hi (len x) ntw t" and s: "length s = unat (len x)"
    have jR: "j < unat (len x)" using j hi by simp
    then show "do { yb \<leftarrow> Some s; xv \<leftarrow> load xb j; yv \<leftarrow> load yb j; store yb j (a * xv + yv) }
               = Some (s[j := a * xb ! j + s ! j])
               \<and> length (s[j := a * xb ! j + s ! j]) = unat (len x)"
      using s x(2) by (simp add: store_in load_in)
  qed
  then show ?thesis
    by (simp add: ax_worker_chk_def ax_worker_def row_range_chk_pos [OF pos] range_lo_def
          range_hi_def split_def Let_def x(1) buffer_def)
qed

lemma ax_worker_length: "length (ax_worker stop a x tid ntw yb) = length yb"
  unfolding ax_worker_def Let_def split_def by (rule rows_loop_inv) simp_all

lemma ax_mt_chk_safe:
  fixes x :: "('a::{plus,times}) Vec"
  assumes x: "vec_ok x" and y: "vec_ok y" and dims: "len x = len y"
  shows "ax_mt_chk e a (Some x) (Some y) ntv = Some (ax_mt e a (Some x) (Some y) ntv)"
proof -
  obtain xb where xb: "Vec.data x = Some xb" "length xb = unat (len x)" using x by (rule vec_okD)
  obtain yb where yb: "Vec.data y = Some yb" "length yb = unat (len y)" using y by (rule vec_okD)
  let ?ntw = "coerce_nt ntv"
  let ?st = "spawn (create_ok e) 0 (nat (sint ?ntw))"
  have pos: "0 <s ?ntw" by (rule coerce_nt_pos)
  have st: "?st \<le> nat (sint ?ntw)" by (rule spawn_le) simp
  have "run_workers_chk (\<lambda>t. ax_worker_chk (g_stop e t) a x (word_of_nat t) ?ntw) ?st yb
        = Some (run_workers (\<lambda>t. ax_worker (g_stop e t) a x (word_of_nat t) ?ntw) ?st yb)"
  proof (rule run_workers_chk_safe [where P = "\<lambda>s. length s = unat (len x)"])
    show "length yb = unat (len x)" using yb(2) dims by simp
  next
    fix t and s :: "'a list"
    assume "t < ?st" and s: "length s = unat (len x)"
    then have t: "t < nat (sint ?ntw)" using st by simp
    show "ax_worker_chk (g_stop e t) a x (word_of_nat t) ?ntw s
               = Some (ax_worker (g_stop e t) a x (word_of_nat t) ?ntw s)
               \<and> length (ax_worker (g_stop e t) a x (word_of_nat t) ?ntw s) = unat (len x)"
      using ax_worker_chk_safe [OF pos t xb s] s by (simp add: ax_worker_length)
  qed
  then show ?thesis
    using xb(1) yb(1) by (simp add: ax_mt_chk_def ax_mt_def Let_def buffer_def)
qed

lemma dt_worker_chk_safe:
  fixes x :: "('a::{zero,plus,times}) Vec"
  assumes pos: "0 <s ntw" and t: "t < nat (sint ntw)"
    and x: "Vec.data x = Some xb" "length xb = unat (len x)"
    and y: "Vec.data y = Some yb" "length yb = unat (len x)"
  shows "dt_worker_chk stop x y (word_of_nat t) ntw = Some (dt_worker stop x y (word_of_nat t) ntw)"
proof -
  have hi: "range_hi (len x) ntw t \<le> unat (len x)" by (rule range_hi_le [OF pos t])
  have "rows_loop stop
          (\<lambda>i st. do { s \<leftarrow> st; xv \<leftarrow> load xb i; yv \<leftarrow> load yb i; Some (s + xv * yv) })
          (range_lo (len x) ntw t) (range_hi (len x) ntw t) (Some (0 :: 'a))
        = Some (rows_loop stop (\<lambda>i s. s + xb ! i * yb ! i)
                  (range_lo (len x) ntw t) (range_hi (len x) ntw t) 0)"
  proof (rule rows_loop_chk [where P = "\<lambda>_. True"])
    fix j and s :: 'a
    assume j: "j < range_hi (len x) ntw t"
    have jR: "j < unat (len x)" using j hi by simp
    then show "do { s \<leftarrow> Some s; xv \<leftarrow> load xb j; yv \<leftarrow> load yb j; Some (s + xv * yv) }
               = Some (s + xb ! j * yb ! j) \<and> True"
      using x(2) y(2) by (simp add: load_in)
  qed simp
  then show ?thesis
    by (simp add: dt_worker_chk_def dt_worker_def row_range_chk_pos [OF pos] range_lo_def
          range_hi_def split_def Let_def x(1) y(1) buffer_def)
qed

lemma dt_mt_chk_safe:
  fixes x :: "('a::{zero,plus,times}) Vec"
  assumes x: "vec_ok x" and y: "vec_ok y" and dims: "len x = len y"
  shows "dt_mt_chk e (Some x) (Some y) (Some out0) ntv
         = Some (dt_mt e (Some x) (Some y) (Some out0) ntv)"
proof -
  obtain xb where xb: "Vec.data x = Some xb" "length xb = unat (len x)" using x by (rule vec_okD)
  obtain yb where yb: "Vec.data y = Some yb" "length yb = unat (len y)" using y by (rule vec_okD)
  let ?ntw = "coerce_nt ntv"
  let ?st = "spawn (create_ok e) 0 (nat (sint ?ntw))"
  have pos: "0 <s ?ntw" by (rule coerce_nt_pos)
  have st: "?st \<le> nat (sint ?ntw)" by (rule spawn_le) simp
  have ly: "length yb = unat (len x)" using yb(2) dims by simp
  have "for_loop (\<lambda>t st. do { sum \<leftarrow> st;
                              p \<leftarrow> dt_worker_chk (g_stop e t) x y (word_of_nat t) ?ntw;
                              Some (sum + p) }) 0 ?st (Some (0 :: 'a))
        = Some (for_loop (\<lambda>t sum. sum + dt_worker (g_stop e t) x y (word_of_nat t) ?ntw) 0 ?st 0)"
  proof (rule for_loop_chk [where P = "\<lambda>_. True"])
    fix t and s :: 'a
    assume "t < ?st"
    then have t: "t < nat (sint ?ntw)" using st by simp
    show "do { sum \<leftarrow> Some s; p \<leftarrow> dt_worker_chk (g_stop e t) x y (word_of_nat t) ?ntw;
               Some (sum + p) }
          = Some (s + dt_worker (g_stop e t) x y (word_of_nat t) ?ntw) \<and> True"
      by (simp add: dt_worker_chk_safe [OF pos t xb yb(1) ly])
  qed simp
  then show ?thesis
    using xb(1) yb(1) by (simp add: dt_mt_chk_def dt_mt_def Let_def)
qed


section \<open>Matrix-matrix product: no access outside a buffer\<close>

lemma mm_axpy_chk_safe:
  assumes i: "i < R" and k: "k < K" and j: "j1 \<le> N"
    and a: "length a = R * K" and b: "length b = K * N" and c: "length c = R * N"
  shows "mm_axpy_chk a b K N i k j0 j1 c = Some (mm_axpy a b K N i k j0 j1 c)"
proof -
  have av: "load a (i * K + k) = Some (a ! (i * K + k))"
    using cell_in [OF i k] a by (simp add: load_in)
  have "for_loop (\<lambda>col st. do { c \<leftarrow> st; cv \<leftarrow> load c (i * N + col);
                                 bv \<leftarrow> load b (k * N + col);
                                 store c (i * N + col) (cv + a ! (i * K + k) * bv) })
          j0 j1 (Some c)
        = Some (for_loop (\<lambda>col c. c[i * N + col := c ! (i * N + col)
                                     + a ! (i * K + k) * b ! (k * N + col)]) j0 j1 c)"
  proof (rule for_loop_chk [where P = "\<lambda>s. length s = R * N"])
    show "length c = R * N" by (rule c)
  next
    fix col and s :: "'a list"
    assume "col < j1" and s: "length s = R * N"
    then have col: "col < N" using j by simp
    have ci: "i * N + col < length s" using cell_in [OF i col] s by simp
    have bi: "k * N + col < length b" using cell_in [OF k col] b by simp
    show "do { c \<leftarrow> Some s; cv \<leftarrow> load c (i * N + col); bv \<leftarrow> load b (k * N + col);
               store c (i * N + col) (cv + a ! (i * K + k) * bv) }
          = Some (s[i * N + col := s ! (i * N + col) + a ! (i * K + k) * b ! (k * N + col)])
          \<and> length (s[i * N + col := s ! (i * N + col) + a ! (i * K + k) * b ! (k * N + col)])
            = R * N"
      using ci bi s by (simp add: load_in store_in)
  qed
  then show ?thesis
    by (simp add: mm_axpy_chk_def mm_axpy_def av Let_def)
qed

lemma mm_ks_chk_safe:
  assumes i: "i < R" and k: "k1 \<le> K" and j: "j1 \<le> N"
    and a: "length a = R * K" and b: "length b = K * N" and c: "length c = R * N"
  shows "for_loop (\<lambda>k st. do { c \<leftarrow> st; mm_axpy_chk a b K N i k j0 j1 c }) k0 k1 (Some c)
         = Some (for_loop (\<lambda>k c. mm_axpy a b K N i k j0 j1 c) k0 k1 c)"
proof (rule for_loop_chk [where P = "\<lambda>s. length s = R * N"])
  show "length c = R * N" by (rule c)
next
  fix kk and s :: "'a list"
  assume "kk < k1" and s: "length s = R * N"
  then have kk: "kk < K" using k by simp
  show "do { c \<leftarrow> Some s; mm_axpy_chk a b K N i kk j0 j1 c } = Some (mm_axpy a b K N i kk j0 j1 s)
        \<and> length (mm_axpy a b K N i kk j0 j1 s) = R * N"
    using mm_axpy_chk_safe [OF i kk j a b s] s by (simp add: mm_axpy_length)
qed

lemma mm_ks_keeps_length:
  "length (for_loop (\<lambda>k c. mm_axpy a b K N i k j0 j1 c) k0 k1 c) = length c"
  by (rule for_loop_inv [where P = "\<lambda>s. length s = length c"]) (simp_all add: mm_axpy_length)

lemma mm_row_plain_chk_safe:
  assumes "i < R" and "length a = R * K" and "length b = K * N" and "length c = R * N"
  shows "mm_row_plain_chk a b K N i c = Some (mm_row_plain a b K N i c)"
  unfolding mm_row_plain_chk_def mm_row_plain_def
  by (rule mm_ks_chk_safe [OF assms(1) order_refl order_refl assms(2-4)])

lemma min_sz_le: "min_sz a b \<le> b"
  by (simp add: min_sz_def)

lemma mm_kblocks_chk_safe:
  assumes i: "i < R" and j: "j1 \<le> N"
    and a: "length a = R * K" and b: "length b = K * N" and c: "length c = R * N"
  shows "step_loop T
           (\<lambda>kk st. let kend = min_sz (kk + T) K in
              for_loop (\<lambda>k st. do { c \<leftarrow> st; mm_axpy_chk a b K N i k j0 j1 c }) kk kend st)
           0 K (Some c)
         = Some (step_loop T
             (\<lambda>kk c. let kend = min_sz (kk + T) K in
                for_loop (\<lambda>k c. mm_axpy a b K N i k j0 j1 c) kk kend c)
             0 K c)"
proof (rule step_loop_chk [where P = "\<lambda>s. length s = R * N"])
  show "length c = R * N" by (rule c)
next
  fix kk and s :: "'a list"
  assume s: "length s = R * N"
  show "(let kend = min_sz (kk + T) K in
           for_loop (\<lambda>k st. do { c \<leftarrow> st; mm_axpy_chk a b K N i k j0 j1 c }) kk kend (Some s))
        = Some (let kend = min_sz (kk + T) K in
                  for_loop (\<lambda>k c. mm_axpy a b K N i k j0 j1 c) kk kend s)
        \<and> length (let kend = min_sz (kk + T) K in
                   for_loop (\<lambda>k c. mm_axpy a b K N i k j0 j1 c) kk kend s) = R * N"
    unfolding Let_def
    using mm_ks_chk_safe [where ?k1.0 = "min_sz (kk + T) K" and ?j0.0 = j0 and ?k0.0 = kk,
            OF i min_sz_le j a b s] s
    by (simp add: mm_ks_keeps_length)
qed

lemma mm_kblocks_keeps_length:
  "length (step_loop T
             (\<lambda>kk c. let kend = min_sz (kk + T) K in
                for_loop (\<lambda>k c. mm_axpy a b K N i k j0 j1 c) kk kend c)
             k0 K c) = length c"
  by (rule step_loop_inv [where P = "\<lambda>s. length s = length c"])
     (simp_all add: Let_def mm_ks_keeps_length)

lemma mm_row_tiled_chk_safe:
  assumes i: "i < R"
    and a: "length a = R * K" and b: "length b = K * N" and c: "length c = R * N"
  shows "mm_row_tiled_chk a b K N T i c = Some (mm_row_tiled a b K N T i c)"
  unfolding mm_row_tiled_chk_def mm_row_tiled_def
proof (rule step_loop_chk [where P = "\<lambda>s. length s = R * N"])
  show "length c = R * N" by (rule c)
next
  fix jj and s :: "'a list"
  assume s: "length s = R * N"
  show "(let jend = min_sz (jj + T) N in
           step_loop T
             (\<lambda>kk st. let kend = min_sz (kk + T) K in
                for_loop (\<lambda>k st. do { c \<leftarrow> st; mm_axpy_chk a b K N i k jj jend c }) kk kend st)
             0 K (Some s))
        = Some (let jend = min_sz (jj + T) N in
             step_loop T
               (\<lambda>kk c. let kend = min_sz (kk + T) K in
                  for_loop (\<lambda>k c. mm_axpy a b K N i k jj jend c) kk kend c)
               0 K s)
        \<and> length (let jend = min_sz (jj + T) N in
             step_loop T
               (\<lambda>kk c. let kend = min_sz (kk + T) K in
                  for_loop (\<lambda>k c. mm_axpy a b K N i k jj jend c) kk kend c)
               0 K s) = R * N"
    using mm_kblocks_chk_safe [where ?j1.0 = "min_sz (jj + T) N" and ?j0.0 = jj and T = T,
            OF i min_sz_le a b s, unfolded Let_def] s
    by (simp add: Let_def mm_kblocks_keeps_length [unfolded Let_def])
qed

lemma mm_row_tiled_keeps_length: "length (mm_row_tiled a b K N T i c) = length c"
  unfolding mm_row_tiled_def
  by (rule step_loop_inv [where P = "\<lambda>s. length s = length c"])
     (simp_all add: Let_def mm_kblocks_keeps_length [unfolded Let_def])

lemma mm_worker_chk_safe:
  assumes pos: "0 <s ntw" and t: "t < nat (sint ntw)"
    and a: "Mat.data A = Some a" "length a = unat (rows A) * unat (cols A)"
    and b: "Mat.data B = Some b" "length b = unat (cols A) * unat (cols B)"
    and c: "length cb = unat (rows A) * unat (cols B)"
  shows "mm_worker_chk stop A B (word_of_nat t) ntw tw cb
         = Some (mm_worker stop A B (word_of_nat t) ntw tw cb)"
proof -
  let ?K = "unat (cols A)" and ?N = "unat (cols B)" and ?R = "unat (rows A)"
  let ?T = "unat (scast tw :: size_t)"
  have hi: "range_hi (rows A) ntw t \<le> ?R" by (rule range_hi_le [OF pos t])
  have plain: "rows_loop stop (\<lambda>i st. do { c \<leftarrow> st; mm_row_plain_chk a b ?K ?N i c })
                 (range_lo (rows A) ntw t) (range_hi (rows A) ntw t) (Some cb)
               = Some (rows_loop stop (mm_row_plain a b ?K ?N)
                         (range_lo (rows A) ntw t) (range_hi (rows A) ntw t) cb)"
  proof (rule rows_loop_chk [where P = "\<lambda>s. length s = ?R * ?N"])
    show "length cb = ?R * ?N" by (rule c)
  next
    fix j and s :: "'a list"
    assume "j < range_hi (rows A) ntw t" and s: "length s = ?R * ?N"
    then have j: "j < ?R" using hi by simp
    show "do { c \<leftarrow> Some s; mm_row_plain_chk a b ?K ?N j c } = Some (mm_row_plain a b ?K ?N j s)
          \<and> length (mm_row_plain a b ?K ?N j s) = ?R * ?N"
      using mm_row_plain_chk_safe [OF j a(2) b(2) s] s by (simp add: mm_row_plain_length)
  qed
  have tiled: "rows_loop stop (\<lambda>i st. do { c \<leftarrow> st; mm_row_tiled_chk a b ?K ?N ?T i c })
                 (range_lo (rows A) ntw t) (range_hi (rows A) ntw t) (Some cb)
               = Some (rows_loop stop (mm_row_tiled a b ?K ?N ?T)
                         (range_lo (rows A) ntw t) (range_hi (rows A) ntw t) cb)"
  proof (rule rows_loop_chk [where P = "\<lambda>s. length s = ?R * ?N"])
    show "length cb = ?R * ?N" by (rule c)
  next
    fix j and s :: "'a list"
    assume "j < range_hi (rows A) ntw t" and s: "length s = ?R * ?N"
    then have j: "j < ?R" using hi by simp
    show "do { c \<leftarrow> Some s; mm_row_tiled_chk a b ?K ?N ?T j c }
          = Some (mm_row_tiled a b ?K ?N ?T j s)
          \<and> length (mm_row_tiled a b ?K ?N ?T j s) = ?R * ?N"
      using mm_row_tiled_chk_safe [OF j a(2) b(2) s] s by (simp add: mm_row_tiled_keeps_length)
  qed
  show ?thesis
    using plain tiled
    by (simp add: mm_worker_chk_def mm_worker_def row_range_chk_pos [OF pos] range_lo_def
          range_hi_def split_def Let_def a(1) b(1) buffer_def)
qed

lemma mm_mt_chk_safe:
  fixes A :: "('a::{zero,plus,times}) Mat"
  assumes A: "mat_ok A" and B: "mat_ok B" and C: "mat_ok C"
    and dims: "cols A = rows B" "rows C = rows A" "cols C = cols B"
  shows "mm_mt_chk e (Some A) (Some B) (Some C) cfg = Some (mm_mt e (Some A) (Some B) (Some C) cfg)"
proof -
  obtain a where a: "Mat.data A = Some a" "length a = unat (rows A) * unat (cols A)"
    using A by (rule mat_okD)
  obtain b where b: "Mat.data B = Some b" "length b = unat (rows B) * unat (cols B)"
    using B by (rule mat_okD)
  obtain c where c: "Mat.data C = Some c" "length c = unat (rows C) * unat (cols C)"
    and fit: "8 * length c < 2 ^ 64"
    using C by (rule mat_okD)
  let ?ntw = "coerce_nt (nt cfg)"
  let ?st = "spawn (create_ok e) 0 (nat (sint ?ntw))"
  let ?c0 = "memset0 c (unat (8 * rows C * cols C))"
  have pos: "0 <s ?ntw" by (rule coerce_nt_pos)
  have st: "?st \<le> nat (sint ?ntw)" by (rule spawn_le) simp
  have bytes: "unat (8 * rows C * cols C) = 8 * length c"
    using fit unfolding c(2) by (rule unat_bytes)
  have ms: "memset_chk c (unat (8 * rows C * cols C)) = Some ?c0"
    by (simp add: memset_chk_def bytes)
  have c0: "length ?c0 = unat (rows A) * unat (cols B)"
    using mm_memset [OF C] c dims by simp
  have lb: "length b = unat (cols A) * unat (cols B)" using b(2) dims by simp
  have run: "run_workers_chk
               (\<lambda>t. mm_worker_chk (g_stop e t) A B (word_of_nat t) ?ntw (tile cfg)) ?st ?c0
        = Some (run_workers
               (\<lambda>t. mm_worker (g_stop e t) A B (word_of_nat t) ?ntw (tile cfg)) ?st ?c0)"
  proof (rule run_workers_chk_safe [where P = "\<lambda>s. length s = unat (rows A) * unat (cols B)"])
    show "length ?c0 = unat (rows A) * unat (cols B)" by (rule c0)
  next
    fix t and s :: "'a list"
    assume "t < ?st" and s: "length s = unat (rows A) * unat (cols B)"
    then have t: "t < nat (sint ?ntw)" using st by simp
    show "mm_worker_chk (g_stop e t) A B (word_of_nat t) ?ntw (tile cfg) s
          = Some (mm_worker (g_stop e t) A B (word_of_nat t) ?ntw (tile cfg) s)
          \<and> length (mm_worker (g_stop e t) A B (word_of_nat t) ?ntw (tile cfg) s)
            = unat (rows A) * unat (cols B)"
      using mm_worker_chk_safe [OF pos t a b(1) lb s] s by (simp add: mm_worker_length)
  qed
  show ?thesis
    using dims a(1) b(1) c(1) ms run
    by (simp add: mm_mt_chk_def mm_mt_def Let_def buffer_def)
qed

section \<open>Zero-size inputs\<close>

lemma mv_workers_length:
  "length (run_workers (\<lambda>t. mv_worker (stop t) A x (word_of_nat t) ntw) started yb) = length yb"
  unfolding run_workers_def mv_worker_def Let_def split_def
  by (rule fold_inv, simp, rule rows_loop_inv) simp_all

lemma ax_workers_length:
  "length (run_workers (\<lambda>t. ax_worker (stop t) a x (word_of_nat t) ntw) started yb) = length yb"
  unfolding run_workers_def ax_worker_def Let_def split_def
  by (rule fold_inv, simp, rule rows_loop_inv) simp_all

lemma dt_worker_empty:
  assumes pos: "0 <s ntw" and t: "t < nat (sint ntw)" and z: "len x = 0"
  shows "dt_worker stop x y (word_of_nat t) ntw = 0"
proof -
  have "range_hi (len x) ntw t \<le> unat (len x)" by (rule range_hi_le [OF pos t])
  then have "range_hi (len x) ntw t \<le> range_lo (len x) ntw t" using z by simp
  then show ?thesis
    unfolding dt_worker_range by (rule rows_loop_empty)
qed

lemma fold_add_zero:
  assumes "(0::'a::{zero,plus}) + 0 = 0" and "\<And>t. t \<in> set ts \<Longrightarrow> f t = 0"
  shows "fold (\<lambda>t sum. sum + f t) ts (0::'a) = 0"
  using assms(2) by (induction ts) (simp_all add: assms(1))

lemma mv_row_no_cols: "mv_row a xb 0 i = 0"
  unfolding mv_row_def by (subst for_loop.simps) simp

lemma mv_mt_no_cols:
  fixes A :: "('a::{zero,plus,times}) Mat"
  assumes A: "mat_ok A" and x: "vec_ok x" and y: "vec_ok y"
    and dims: "cols A = len x" "rows A = len y" and ff: "fault_free e" and z: "cols A = 0"
  shows "mv_mt e (Some A) (Some x) (Some y) cfg
         = (0, Some (y\<lparr>Vec.data := Some (replicate (unat (rows A)) 0)\<rparr>))"
proof -
  have "mv_row (the (Mat.data A)) (the (Vec.data x)) 0 = (\<lambda>i. 0)"
    by (rule ext) (rule mv_row_no_cols)
  then have "map (mv_row (the (Mat.data A)) (the (Vec.data x)) (unat (cols A))) [0..<unat (rows A)]
        = replicate (unat (rows A)) 0"
    using z by (simp add: map_replicate_const)
  then show ?thesis
    using mv_mt_fault_free [OF A x y dims ff, of cfg] by simp
qed

lemma mm_row_plain_no_k: "mm_row_plain a b 0 N i c = c"
  unfolding mm_row_plain_def by (subst for_loop.simps) simp

lemma mm_row_tiled_no_k: "mm_row_tiled a b 0 N T i c = c"
  unfolding mm_row_tiled_def
proof (rule step_loop_inv [where P = "\<lambda>s. s = c"])
  fix j and s :: "'a list"
  assume "s = c"
  then show "(let jend = min_sz (j + T) N in
               step_loop T (\<lambda>kk c. let kend = min_sz (kk + T) 0 in
                  for_loop (\<lambda>k c. mm_axpy a b 0 N i k j jend c) kk kend c) 0 0 s) = c"
    unfolding Let_def by (subst step_loop.simps) simp
qed simp

lemma mm_worker_no_k:
  assumes "cols A = 0"
  shows "mm_worker stop A B tid ntw tw cb = cb"
proof (cases "tw \<le>s 0")
  case True
  have "rows_loop stop (mm_row_plain (the (Mat.data A)) (the (Mat.data B)) 0 (unat (cols B)))
          i0 i1 cb = cb" for i0 i1
    by (rule rows_loop_inv [where P = "\<lambda>s. s = cb"]) (simp_all add: mm_row_plain_no_k)
  then show ?thesis
    using True assms by (simp add: mm_worker_def Let_def split_def)
next
  case False
  have "rows_loop stop (mm_row_tiled (the (Mat.data A)) (the (Mat.data B)) 0 (unat (cols B)) T)
          i0 i1 cb = cb" for i0 i1 T
    by (rule rows_loop_inv [where P = "\<lambda>s. s = cb"]) (simp_all add: mm_row_tiled_no_k)
  then show ?thesis
    using False assms by (simp add: mm_worker_def Let_def split_def)
qed

lemma mm_mt_zero_size:
  fixes P :: "('a::{zero,plus,times}) Mat"
  assumes P: "mat_ok P" and Q: "mat_ok Q" and R: "mat_ok R"
    and dims: "cols P = rows Q" "rows R = rows P" "cols R = cols Q"
    and z: "rows P = 0 \<or> cols P = 0 \<or> cols Q = 0"
  shows "snd (mm_mt e (Some P) (Some Q) (Some R) cfg)
         = Some (R\<lparr>Mat.data := Some (replicate (unat (rows R) * unat (cols R)) 0)\<rparr>)"
proof -
  have pres: "Mat.data P \<noteq> None" "Mat.data Q \<noteq> None"
    using P Q by (auto simp: mat_ok_def split: option.splits)
  let ?z = "replicate (unat (rows R) * unat (cols R)) (0 :: 'a)"
  let ?run = "run_workers
                (\<lambda>t. mm_worker (g_stop e t) P Q (word_of_nat t) (coerce_nt (nt cfg)) (tile cfg))
                (spawn (create_ok e) 0 (nat (sint (coerce_nt (nt cfg))))) ?z"
  have "?run = ?z"
  proof (cases "cols P = 0")
    case True
    show ?thesis
      unfolding run_workers_def
      by (rule fold_inv [where P = "\<lambda>s. s = ?z"]) (simp_all add: mm_worker_no_k [OF True])
  next
    case False
    then have "unat (rows R) * unat (cols R) = 0" using z dims by auto
    then have e: "?z = []" by simp
    have "length ?run = length ?z" by (rule run_workers_mm_length)
    then show ?thesis unfolding e by simp
  qed
  then show ?thesis
    by (simp add: mm_mt_valid [OF pres R dims])
qed

lemma empty_output_same:
  assumes "Mat.data R = Some c" and "length c = unat (rows R) * unat (cols R)"
    and "rows R = 0 \<or> cols R = 0"
  shows "R\<lparr>Mat.data := Some (replicate (unat (rows R) * unat (cols R)) 0)\<rparr> = R"
proof -
  have z: "unat (rows R) * unat (cols R) = 0" using assms(3) by auto
  have "length c = 0" unfolding assms(2) by (rule z)
  then have c: "c = []" by simp
  have r: "replicate (unat (rows R) * unat (cols R)) (0 :: 'a) = []" unfolding z by simp
  show ?thesis unfolding r using assms(1) c by simp
qed

lemma m_alloc_empty: "r = 0 \<or> c = 0 \<Longrightarrow> Mat.data (m_alloc ok r c) = None"
  by (auto simp: m_alloc_def)

lemma v_alloc_empty: "Vec.data (v_alloc ok 0) = None"
  by (simp add: v_alloc_def)

lemma mv_mt_null:
  assumes "(\<exists>A. Ap = Some A \<and> Mat.data A = None) \<or> (\<exists>x. xp = Some x \<and> Vec.data x = None)
           \<or> (\<exists>y. yp = Some y \<and> Vec.data y = None)"
  shows "mv_mt e Ap xp yp cfg = (- 1, yp)" and "mv_mt_chk e Ap xp yp cfg = Some (- 1, yp)"
  using assms by (auto simp: mv_mt_def mv_mt_chk_def)

lemma mm_mt_null:
  assumes "(\<exists>A. Ap = Some A \<and> Mat.data A = None) \<or> (\<exists>B. Bp = Some B \<and> Mat.data B = None)
           \<or> (\<exists>C. Cp = Some C \<and> Mat.data C = None)"
  shows "mm_mt e Ap Bp Cp cfg = (- 1, Cp)" and "mm_mt_chk e Ap Bp Cp cfg = Some (- 1, Cp)"
  using assms by (auto simp: mm_mt_def mm_mt_chk_def)

lemma dt_mt_null:
  assumes "(\<exists>x. xp = Some x \<and> Vec.data x = None) \<or> (\<exists>y. yp = Some y \<and> Vec.data y = None)"
  shows "dt_mt e xp yp outp ntv = (- 1, outp)" and "dt_mt_chk e xp yp outp ntv = Some (- 1, outp)"
  using assms by (auto simp: dt_mt_def dt_mt_chk_def)

lemma ax_mt_null:
  assumes "(\<exists>x. xp = Some x \<and> Vec.data x = None) \<or> (\<exists>y. yp = Some y \<and> Vec.data y = None)"
  shows "ax_mt e a xp yp ntv = (- 1, yp)" and "ax_mt_chk e a xp yp ntv = Some (- 1, yp)"
  using assms by (auto simp: ax_mt_def ax_mt_chk_def)

lemma mv_mt_status:
  assumes "mat_ok A" and "vec_ok x" and "vec_ok y" and "cols A = len x" and "rows A = len y"
    and "ths_ok e" and "jobs_ok e"
  shows "fst (mv_mt e (Some A) (Some x) (Some y) cfg) = 0"
proof -
  obtain a' where "Mat.data A = Some a'" using assms(1) by (rule mat_okD)
  moreover obtain xb where "Vec.data x = Some xb" using assms(2) by (rule vec_okD)
  moreover obtain yb where "Vec.data y = Some yb" using assms(3) by (rule vec_okD)
  ultimately show ?thesis using assms(4-7) by (simp add: mv_mt_def Let_def)
qed

lemma mv_mt_no_rows:
  assumes A: "mat_ok A" and x: "vec_ok x" and y: "vec_ok y"
    and d: "cols A = len x" "rows A = len y" and z: "rows A = 0"
  shows "snd (mv_mt e (Some A) (Some x) (Some y) cfg) = Some y"
proof (cases "ths_ok e \<and> jobs_ok e")
  case True
  obtain a' where a': "Mat.data A = Some a'" using A by (rule mat_okD)
  obtain xb where xb: "Vec.data x = Some xb" using x by (rule vec_okD)
  obtain yb where yb: "Vec.data y = Some yb" and ly: "length yb = unat (len y)"
    using y by (rule vec_okD)
  have e: "yb = []" using ly d z by simp
  then have "run_workers (\<lambda>t. mv_worker (g_stop e t) A x (word_of_nat t) (coerce_nt (nt cfg)))
               (spawn (create_ok e) 0 (nat (sint (coerce_nt (nt cfg))))) yb = []"
    using mv_workers_length [of "g_stop e" A x "coerce_nt (nt cfg)" _ yb] by simp
  then show ?thesis
    using a' xb yb d True e by (simp add: mv_mt_def Let_def)
next
  case False
  then have "fst (mv_mt e (Some A) (Some x) (Some y) cfg) \<noteq> 0"
    by (auto simp: mv_mt_def Let_def)
  then show ?thesis by (rule mv_mt_failure_untouched)
qed

lemma dt_mt_empty:
  fixes u :: "('a::{zero,plus,times}) Vec"
  assumes u: "vec_ok u" and v: "vec_ok v" and d: "len u = len v" and z: "len u = 0"
    and al: "ths_ok e" "jobs_ok e" and add0: "(0 :: 'a) + 0 = 0"
  shows "dt_mt e (Some u) (Some v) (Some out0) ntv = (0, Some 0)"
proof -
  obtain ub where ub: "Vec.data u = Some ub" using u by (rule vec_okD)
  obtain vb where vb: "Vec.data v = Some vb" using v by (rule vec_okD)
  let ?ntw = "coerce_nt ntv"
  have pos: "0 <s ?ntw" by (rule coerce_nt_pos)
  have st: "spawn (create_ok e) 0 (nat (sint ?ntw)) \<le> nat (sint ?ntw)"
    by (rule spawn_le) simp
  have "fold (\<lambda>t sum. sum + dt_worker (g_stop e t) u v (word_of_nat t) ?ntw)
          [0..<spawn (create_ok e) 0 (nat (sint ?ntw))] (0 :: 'a) = 0"
  proof (rule fold_add_zero [OF add0])
    fix t assume "t \<in> set [0..<spawn (create_ok e) 0 (nat (sint ?ntw))]"
    then have "t < nat (sint ?ntw)" using st by simp
    then show "dt_worker (g_stop e t) u v (word_of_nat t) ?ntw = 0"
      by (rule dt_worker_empty [OF pos _ z])
  qed
  then show ?thesis
    using ub vb d al by (simp add: dt_mt_def Let_def for_loop_fold)
qed

lemma dt_mt_status:
  assumes "vec_ok u" and "vec_ok v" and "len u = len v" and "ths_ok e" and "jobs_ok e"
  shows "fst (dt_mt e (Some u) (Some v) (Some out0) ntv) = 0"
proof -
  obtain ub where "Vec.data u = Some ub" using assms(1) by (rule vec_okD)
  moreover obtain vb where "Vec.data v = Some vb" using assms(2) by (rule vec_okD)
  ultimately show ?thesis using assms(3-5) by (simp add: dt_mt_def Let_def)
qed

lemma ax_mt_status:
  assumes "vec_ok u" and "vec_ok v" and "len u = len v" and "ths_ok e" and "jobs_ok e"
  shows "fst (ax_mt e a (Some u) (Some v) ntv) = 0"
proof -
  obtain ub where "Vec.data u = Some ub" using assms(1) by (rule vec_okD)
  moreover obtain vb where "Vec.data v = Some vb" using assms(2) by (rule vec_okD)
  ultimately show ?thesis using assms(3-5) by (simp add: ax_mt_def Let_def)
qed

lemma ax_mt_empty:
  assumes u: "vec_ok u" and v: "vec_ok v" and d: "len u = len v" and z: "len u = 0"
    and al: "ths_ok e" "jobs_ok e"
  shows "ax_mt e a (Some u) (Some v) ntv = (0, Some v)"
proof -
  obtain ub where ub: "Vec.data u = Some ub" using u by (rule vec_okD)
  obtain vb where vb: "Vec.data v = Some vb" and lv: "length vb = unat (len v)"
    using v by (rule vec_okD)
  have e: "vb = []" using lv d z by simp
  then have "run_workers (\<lambda>t. ax_worker (g_stop e t) a u (word_of_nat t) (coerce_nt ntv))
               (spawn (create_ok e) 0 (nat (sint (coerce_nt ntv)))) vb = []"
    using ax_workers_length [of "g_stop e" a u "coerce_nt ntv" _ vb] by simp
  then show ?thesis
    using ub vb d al e by (simp add: ax_mt_def Let_def)
qed

lemma ax_mt_empty_output:
  assumes u: "vec_ok u" and v: "vec_ok v" and d: "len u = len v" and z: "len u = 0"
  shows "snd (ax_mt e a (Some u) (Some v) ntv) = Some v"
proof (cases "ths_ok e \<and> jobs_ok e")
  case True
  then show ?thesis using ax_mt_empty [OF u v d z, of e a ntv] by simp
next
  case False
  then have "fst (ax_mt e a (Some u) (Some v) ntv) \<noteq> 0"
    by (auto simp: ax_mt_def Let_def)
  then show ?thesis by (rule ax_mt_failure_untouched)
qed

text \<open>
  Claim C5, as it is stated, fails at two inputs. Zero-length vectors as \<open>v_alloc\<close> returns
  them have no buffer, and \<open>dt_mt\<close> rejects them with -1. And \<open>mv_mt\<close> on a 3x0 matrix
  whose buffers are present succeeds but writes all three elements of \<open>y\<close>.
\<close>

theorem zero_size_counterexample:
  "dt_mt quiet_env (Some (v_alloc True 0)) (Some (v_alloc True 0)) (Some (7 :: real)) 1
     = (- 1, Some 7) \<and>
   mv_mt quiet_env (Some (mat_of 3 0 [])) (Some (vec_of [])) (Some (vec_of [7, 8, 9 :: real]))
       \<lparr>nt = 2, tile = 0\<rparr>
     = (0, Some (vec_of [0, 0, 0]))"
proof
  show "dt_mt quiet_env (Some (v_alloc True 0)) (Some (v_alloc True 0)) (Some (7 :: real)) 1
        = (- 1, Some 7)"
    by (simp add: dt_mt_def v_alloc_def Let_def)
next
  have A: "mat_ok (mat_of 3 0 ([] :: real list))"
    and x: "vec_ok (vec_of ([] :: real list))" and y: "vec_ok (vec_of [7, 8, 9 :: real])"
    by (simp_all add: mat_ok_def vec_ok_def mat_of_def vec_of_def)
  have d: "cols (mat_of 3 0 ([] :: real list)) = len (vec_of ([] :: real list))"
      "rows (mat_of 3 0 ([] :: real list)) = len (vec_of [7, 8, 9 :: real])"
    by (simp_all add: mat_of_def vec_of_def)
  have f: "fault_free quiet_env"
    by (simp add: fault_free_def quiet_env_def)
  show "mv_mt quiet_env (Some (mat_of 3 0 [])) (Some (vec_of [])) (Some (vec_of [7, 8, 9 :: real]))
          \<lparr>nt = 2, tile = 0\<rparr>
        = (0, Some (vec_of [0, 0, 0]))"
    unfolding mv_mt_fault_free [OF A x y d f]
    by (simp add: mat_of_def vec_of_def mv_row_def for_loop_fold upt_small)
qed

text \<open>
  Claim C5, amended. For a zero-size input with consistent dimensions whose buffers are all
  present, each of the four kernels handles the call without crashing: the checked
  execution does not fail (no step reads or writes outside a buffer or divides by zero),
  whatever the thread count, the allocation and thread-creation results and the
  cancellation flag, and returns what the kernel's definition computes. When the allocation
  of the thread handles and job descriptors succeeds, the call returns 0. An output with no
  elements is left as it was: \<open>y\<close> of \<open>mv_mt\<close> when \<open>A\<close> has no rows, \<open>C\<close> of \<open>mm_mt\<close>
  when \<open>A\<close> has no rows or \<open>B\<close> no columns, \<open>y\<close> of \<open>ax_mt\<close>; \<open>dt_mt\<close> stores 0 in
  \<open>*out\<close> (given \<open>0 + 0 = 0\<close>, which holds for doubles). An output that has elements is
  written: \<open>mm_mt\<close> leaves \<open>C\<close> zero-filled, and \<open>mv_mt\<close> on an \<open>R x 0\<close> matrix, in a
  call where nothing fails and nobody cancels, stores 0 in all \<open>R\<close> elements of \<open>y\<close>.

  A zero-size matrix or vector as \<open>m_alloc\<close> or \<open>v_alloc\<close> returns it has no buffer. A
  kernel that is given one as any of its arguments returns -1, without crashing, and leaves
  its output as it was.
\<close>

theorem zero_size_kernels:
  fixes A P Q R :: "('a::{zero,plus,times}) Mat" and x y u v :: "'a Vec"
  shows "(mat_ok A \<and> vec_ok x \<and> vec_ok y \<and> cols A = len x \<and> rows A = len y \<and>
          (rows A = 0 \<or> cols A = 0) \<longrightarrow>
            mv_mt_chk e (Some A) (Some x) (Some y) cfg
              = Some (mv_mt e (Some A) (Some x) (Some y) cfg) \<and>
            (ths_ok e \<and> jobs_ok e \<longrightarrow> fst (mv_mt e (Some A) (Some x) (Some y) cfg) = 0) \<and>
            (rows A = 0 \<longrightarrow> snd (mv_mt e (Some A) (Some x) (Some y) cfg) = Some y) \<and>
            (cols A = 0 \<and> fault_free e \<longrightarrow>
               mv_mt e (Some A) (Some x) (Some y) cfg
                 = (0, Some (y\<lparr>Vec.data := Some (replicate (unat (rows A)) 0)\<rparr>)))) \<and>
         (mat_ok P \<and> mat_ok Q \<and> mat_ok R \<and> cols P = rows Q \<and> rows R = rows P \<and> cols R = cols Q \<and>
          (rows P = 0 \<or> cols P = 0 \<or> cols Q = 0) \<longrightarrow>
            mm_mt_chk e (Some P) (Some Q) (Some R) cfg
              = Some (mm_mt e (Some P) (Some Q) (Some R) cfg) \<and>
            (ths_ok e \<and> jobs_ok e \<longrightarrow> fst (mm_mt e (Some P) (Some Q) (Some R) cfg) = 0) \<and>
            (rows P = 0 \<or> cols Q = 0 \<longrightarrow> snd (mm_mt e (Some P) (Some Q) (Some R) cfg) = Some R) \<and>
            snd (mm_mt e (Some P) (Some Q) (Some R) cfg)
              = Some (R\<lparr>Mat.data := Some (replicate (unat (rows R) * unat (cols R)) 0)\<rparr>)) \<and>
         (vec_ok u \<and> vec_ok v \<and> len u = len v \<and> len u = 0 \<longrightarrow>
            dt_mt_chk e (Some u) (Some v) (Some out0) ntv
              = Some (dt_mt e (Some u) (Some v) (Some out0) ntv) \<and>
            (ths_ok e \<and> jobs_ok e \<longrightarrow> fst (dt_mt e (Some u) (Some v) (Some out0) ntv) = 0) \<and>
            (ths_ok e \<and> jobs_ok e \<and> (0 :: 'a) + 0 = 0 \<longrightarrow>
               dt_mt e (Some u) (Some v) (Some out0) ntv = (0, Some 0)) \<and>
            ax_mt_chk e a (Some u) (Some v) ntv = Some (ax_mt e a (Some u) (Some v) ntv) \<and>
            (ths_ok e \<and> jobs_ok e \<longrightarrow> fst (ax_mt e a (Some u) (Some v) ntv) = 0) \<and>
            snd (ax_mt e a (Some u) (Some v) ntv) = Some v) \<and>
         (r = 0 \<or> c = 0 \<longrightarrow> Mat.data (m_alloc ok r c :: 'a Mat) = None) \<and>
         Vec.data (v_alloc ok 0 :: 'a Vec) = None \<and>
         ((r = 0 \<or> c = 0) \<and>
          (Ap = Some (m_alloc ok r c) \<or> xp = Some (v_alloc ok 0) \<or> yp = Some (v_alloc ok 0)) \<longrightarrow>
            mv_mt e Ap xp yp cfg = (- 1, yp) \<and> mv_mt_chk e Ap xp yp cfg = Some (- 1, yp)) \<and>
         ((r = 0 \<or> c = 0) \<and>
          (Pp = Some (m_alloc ok r c) \<or> Qp = Some (m_alloc ok r c) \<or> Rp = Some (m_alloc ok r c)) \<longrightarrow>
            mm_mt e Pp Qp Rp cfg = (- 1, Rp) \<and> mm_mt_chk e Pp Qp Rp cfg = Some (- 1, Rp)) \<and>
         (up = Some (v_alloc ok 0) \<or> vp = Some (v_alloc ok 0) \<longrightarrow>
            dt_mt e up vp outp ntv = (- 1, outp) \<and> dt_mt_chk e up vp outp ntv = Some (- 1, outp) \<and>
            ax_mt e a up vp ntv = (- 1, vp) \<and> ax_mt_chk e a up vp ntv = Some (- 1, vp))"
proof (intro conjI impI; (elim conjE)?)
  assume h: "mat_ok A" "vec_ok x" "vec_ok y" "cols A = len x" "rows A = len y"
  show "mv_mt_chk e (Some A) (Some x) (Some y) cfg = Some (mv_mt e (Some A) (Some x) (Some y) cfg)"
    by (rule mv_mt_chk_safe [OF h])
  { assume "ths_ok e" "jobs_ok e"
    then show "fst (mv_mt e (Some A) (Some x) (Some y) cfg) = 0"
      by (rule mv_mt_status [OF h]) }
  { assume "rows A = 0"
    then show "snd (mv_mt e (Some A) (Some x) (Some y) cfg) = Some y"
      by (rule mv_mt_no_rows [OF h]) }
  { assume "fault_free e" "cols A = 0"
    then show "mv_mt e (Some A) (Some x) (Some y) cfg
               = (0, Some (y\<lparr>Vec.data := Some (replicate (unat (rows A)) 0)\<rparr>))"
      by (rule mv_mt_no_cols [OF h]) }
next
  assume h: "mat_ok P" "mat_ok Q" "mat_ok R" "cols P = rows Q" "rows R = rows P" "cols R = cols Q"
    and z: "rows P = 0 \<or> cols P = 0 \<or> cols Q = 0"
  have pres: "Mat.data P \<noteq> None" "Mat.data Q \<noteq> None"
    using h(1,2) by (auto simp: mat_ok_def split: option.splits)
  show "mm_mt_chk e (Some P) (Some Q) (Some R) cfg = Some (mm_mt e (Some P) (Some Q) (Some R) cfg)"
    by (rule mm_mt_chk_safe [OF h])
  show zs: "snd (mm_mt e (Some P) (Some Q) (Some R) cfg)
        = Some (R\<lparr>Mat.data := Some (replicate (unat (rows R) * unat (cols R)) 0)\<rparr>)"
    by (rule mm_mt_zero_size [OF h z])
  { assume "ths_ok e" "jobs_ok e"
    then show "fst (mm_mt e (Some P) (Some Q) (Some R) cfg) = 0"
      by (simp add: mm_mt_valid [OF pres h(3-6)]) }
  { assume "rows P = 0 \<or> cols Q = 0"
    then have e: "rows R = 0 \<or> cols R = 0" using h(5,6) by simp
    obtain c where "Mat.data R = Some c" and "length c = unat (rows R) * unat (cols R)"
      using h(3) by (rule mat_okD)
    then show "snd (mm_mt e (Some P) (Some Q) (Some R) cfg) = Some R"
      unfolding zs using e by (simp only: empty_output_same) }
next
  assume h: "vec_ok u" "vec_ok v" "len u = len v" and z: "len u = 0"
  show "dt_mt_chk e (Some u) (Some v) (Some out0) ntv
        = Some (dt_mt e (Some u) (Some v) (Some out0) ntv)"
    by (rule dt_mt_chk_safe [OF h])
  show "ax_mt_chk e a (Some u) (Some v) ntv = Some (ax_mt e a (Some u) (Some v) ntv)"
    by (rule ax_mt_chk_safe [OF h])
  show "snd (ax_mt e a (Some u) (Some v) ntv) = Some v"
    by (rule ax_mt_empty_output [OF h z])
  { assume "ths_ok e" "jobs_ok e" "(0 :: 'a) + 0 = 0"
    then show "dt_mt e (Some u) (Some v) (Some out0) ntv = (0, Some 0)"
      by (rule dt_mt_empty [OF h z]) }
  { assume "ths_ok e" "jobs_ok e"
    then show "fst (dt_mt e (Some u) (Some v) (Some out0) ntv) = 0"
      by (rule dt_mt_status [OF h]) }
  { assume "ths_ok e" "jobs_ok e"
    then show "fst (ax_mt e a (Some u) (Some v) ntv) = 0"
      by (rule ax_mt_status [OF h]) }
next
  assume "r = 0 \<or> c = 0"
  then show "Mat.data (m_alloc ok r c :: 'a Mat) = None" by (rule m_alloc_empty)
next
  show "Vec.data (v_alloc ok 0 :: 'a Vec) = None" by (rule v_alloc_empty)
next
  assume "r = 0 \<or> c = 0"
    and "Ap = Some (m_alloc ok r c) \<or> xp = Some (v_alloc ok 0) \<or> yp = Some (v_alloc ok 0)"
  then have n: "(\<exists>A. Ap = Some A \<and> Mat.data A = None) \<or> (\<exists>x. xp = Some x \<and> Vec.data x = None)
           \<or> (\<exists>y. yp = Some y \<and> Vec.data y = None)"
    using m_alloc_empty [of r c ok] v_alloc_empty [of ok] by blast
  show "mv_mt e Ap xp yp cfg = (- 1, yp)" by (rule mv_mt_null(1) [OF n])
  show "mv_mt_chk e Ap xp yp cfg = Some (- 1, yp)" by (rule mv_mt_null(2) [OF n])
next
  assume "r = 0 \<or> c = 0"
    and "Pp = Some (m_alloc ok r c) \<or> Qp = Some (m_alloc ok r c) \<or> Rp = Some (m_alloc ok r c)"
  then have n: "(\<exists>A. Pp = Some A \<and> Mat.data A = None) \<or> (\<exists>B. Qp = Some B \<and> Mat.data B = None)
           \<or> (\<exists>C. Rp = Some C \<and> Mat.data C = None)"
    using m_alloc_empty [of r c ok] by blast
  show "mm_mt e Pp Qp Rp cfg = (- 1, Rp)" by (rule mm_mt_null(1) [OF n])
  show "mm_mt_chk e Pp Qp Rp cfg = Some (- 1, Rp)" by (rule mm_mt_null(2) [OF n])
next
  assume "up = Some (v_alloc ok 0) \<or> vp = Some (v_alloc ok 0)"
  then have n: "(\<exists>x. up = Some x \<and> Vec.data x = None) \<or> (\<exists>y. vp = Some y \<and> Vec.data y = None)"
    using v_alloc_empty [of ok] by blast
  show "dt_mt e up vp outp ntv = (- 1, outp)" by (rule dt_mt_null(1) [OF n])
  show "dt_mt_chk e up vp outp ntv = Some (- 1, outp)" by (rule dt_mt_null(2) [OF n])
  show "ax_mt e a up vp ntv = (- 1, vp)" by (rule ax_mt_null(1) [OF n])
  show "ax_mt_chk e a up vp ntv = Some (- 1, vp)" by (rule ax_mt_null(2) [OF n])
qed


theorem zero_size_kernels_witness:
  "mat_ok (mat_of 3 0 ([] :: real list)) \<and> vec_ok (vec_of ([] :: real list)) \<and>
   vec_ok (vec_of [7, 8, 9 :: real]) \<and>
   cols (mat_of 3 0 ([] :: real list)) = len (vec_of ([] :: real list)) \<and>
   rows (mat_of 3 0 ([] :: real list)) = len (vec_of [7, 8, 9 :: real]) \<and>
   cols (mat_of 3 0 ([] :: real list)) = 0 \<and> fault_free quiet_env \<and>
   mv_mt_chk quiet_env (Some (mat_of 3 0 [])) (Some (vec_of []))
       (Some (vec_of [7, 8, 9 :: real])) \<lparr>nt = 2, tile = 0\<rparr>
     = Some (0, Some (vec_of [0, 0, 0])) \<and>
   mat_ok (mat_of 0 2 ([] :: real list)) \<and> mat_ok (mat_of 2 3 [1, 2, 3, 4, 5, 6 :: real]) \<and>
   mat_ok (mat_of 0 3 ([] :: real list)) \<and>
   cols (mat_of 0 2 ([] :: real list)) = rows (mat_of 2 3 [1, 2, 3, 4, 5, 6 :: real]) \<and>
   rows (mat_of 0 3 ([] :: real list)) = rows (mat_of 0 2 ([] :: real list)) \<and>
   cols (mat_of 0 3 ([] :: real list)) = cols (mat_of 2 3 [1, 2, 3, 4, 5, 6 :: real]) \<and>
   rows (mat_of 0 2 ([] :: real list)) = 0 \<and> ths_ok quiet_env \<and> jobs_ok quiet_env \<and>
   mm_mt_chk quiet_env (Some (mat_of 0 2 [])) (Some (mat_of 2 3 [1, 2, 3, 4, 5, 6 :: real]))
       (Some (mat_of 0 3 [])) \<lparr>nt = 4, tile = 16\<rparr>
     = Some (0, Some (mat_of 0 3 [])) \<and>
   mat_ok (mat_of 2 0 ([] :: real list)) \<and> mat_ok (mat_of 2 2 [5, 6, 7, 8 :: real]) \<and>
   cols (mat_of 2 0 ([] :: real list)) = rows (mat_of 0 2 ([] :: real list)) \<and>
   rows (mat_of 2 2 [5, 6, 7, 8 :: real]) = rows (mat_of 2 0 ([] :: real list)) \<and>
   cols (mat_of 2 2 [5, 6, 7, 8 :: real]) = cols (mat_of 0 2 ([] :: real list)) \<and>
   cols (mat_of 2 0 ([] :: real list)) = 0 \<and>
   mm_mt_chk quiet_env (Some (mat_of 2 0 [])) (Some (mat_of 0 2 []))
       (Some (mat_of 2 2 [5, 6, 7, 8 :: real])) \<lparr>nt = 3, tile = 16\<rparr>
     = Some (0, Some (mat_of 2 2 [0, 0, 0, 0])) \<and>
   len (vec_of ([] :: real list)) = 0 \<and> (0 :: real) + 0 = 0 \<and>
   dt_mt_chk quiet_env (Some (vec_of [])) (Some (vec_of [])) (Some (7 :: real)) 4
     = Some (0, Some 0) \<and>
   ax_mt_chk quiet_env (2 :: real) (Some (vec_of [])) (Some (vec_of [])) 4
     = Some (0, Some (vec_of [])) \<and>
   Mat.data (m_alloc True 0 5 :: real Mat) = None \<and>
   Vec.data (v_alloc True 0 :: real Vec) = None \<and>
   mv_mt_chk quiet_env (Some (m_alloc True 0 5)) (Some (vec_of [1, 2, 3, 4, 5 :: real]))
       (Some (v_alloc True 0)) \<lparr>nt = 1, tile = 0\<rparr>
     = Some (- 1, Some (v_alloc True 0)) \<and>
   mm_mt_chk quiet_env (Some (mat_of 2 3 [1, 2, 3, 4, 5, 6 :: real])) (Some (m_alloc True 3 0))
       (Some (m_alloc True 2 0)) \<lparr>nt = 1, tile = 0\<rparr>
     = Some (- 1, Some (m_alloc True 2 0)) \<and>
   dt_mt_chk quiet_env (Some (v_alloc True 0)) (Some (v_alloc True 0)) (Some (7 :: real)) 1
     = Some (- 1, Some 7) \<and>
   ax_mt_chk quiet_env (2 :: real) (Some (v_alloc True 0)) (Some (v_alloc True 0)) 1
     = Some (- 1, Some (v_alloc True 0))"
proof -
  let ?E = "[] :: real list"
  let ?A = "mat_of 3 0 ?E" and ?y = "vec_of [7, 8, 9 :: real]" and ?n = "vec_of ?E"
  let ?P = "mat_of 0 2 ?E" and ?Q = "mat_of 2 3 [1, 2, 3, 4, 5, 6 :: real]"
  let ?R = "mat_of 0 3 ?E"
  let ?P' = "mat_of 2 0 ?E" and ?R' = "mat_of 2 2 [5, 6, 7, 8 :: real]"
  let ?V = "v_alloc True 0 :: real Vec"
  have ok: "mat_ok ?A" "vec_ok ?n" "vec_ok ?y" "mat_ok ?P" "mat_ok ?Q" "mat_ok ?R"
      "mat_ok ?P'" "mat_ok ?R'"
    by (simp_all add: mat_ok_def vec_ok_def mat_of_def vec_of_def)
  have d: "cols ?A = len ?n" "rows ?A = len ?y" "cols ?A = 0"
      "cols ?P = rows ?Q" "rows ?R = rows ?P" "cols ?R = cols ?Q" "rows ?P = 0"
      "cols ?P' = rows ?P" "rows ?R' = rows ?P'" "cols ?R' = cols ?P" "cols ?P' = 0"
      "len ?n = 0" "len ?n = len ?n"
    by (simp_all add: mat_of_def vec_of_def)
  have e: "ths_ok quiet_env" "jobs_ok quiet_env" "fault_free quiet_env"
    and z: "(0 :: real) + 0 = 0"
    by (simp_all add: quiet_env_def fault_free_def)
  have r3: "replicate 3 (0 :: real) = [0, 0, 0]" by (simp add: numeral_3_eq_3)
  have r4: "replicate 4 (0 :: real) = [0, 0, 0, 0]" by (simp add: numeral_eq_Suc)
  have mv: "mv_mt_chk quiet_env (Some ?A) (Some ?n) (Some ?y) \<lparr>nt = 2, tile = 0\<rparr>
            = Some (0, Some (vec_of [0, 0, 0]))"
  proof -
    have h: "mat_ok ?A \<and> vec_ok ?n \<and> vec_ok ?y \<and> cols ?A = len ?n \<and> rows ?A = len ?y \<and>
             (rows ?A = 0 \<or> cols ?A = 0)"
      using ok(1-3) d(1-3) by blast
    note c = zero_size_kernels [where A = ?A and x = ?n and y = ?y and e = quiet_env
               and cfg = "\<lparr>nt = 2, tile = 0\<rparr>", THEN conjunct1, THEN mp, OF h]
    have "mv_mt_chk quiet_env (Some ?A) (Some ?n) (Some ?y) \<lparr>nt = 2, tile = 0\<rparr>
          = Some (mv_mt quiet_env (Some ?A) (Some ?n) (Some ?y) \<lparr>nt = 2, tile = 0\<rparr>)"
      and "mv_mt quiet_env (Some ?A) (Some ?n) (Some ?y) \<lparr>nt = 2, tile = 0\<rparr>
          = (0, Some (?y\<lparr>Vec.data := Some (replicate (unat (rows ?A)) 0)\<rparr>))"
      using c d(3) e(3) by blast+
    then show ?thesis by (simp add: mat_of_def vec_of_def r3)
  qed
  have mm: "mm_mt_chk quiet_env (Some ?P) (Some ?Q) (Some ?R) \<lparr>nt = 4, tile = 16\<rparr>
            = Some (0, Some ?R)"
  proof -
    have h: "mat_ok ?P \<and> mat_ok ?Q \<and> mat_ok ?R \<and> cols ?P = rows ?Q \<and> rows ?R = rows ?P \<and>
             cols ?R = cols ?Q \<and> (rows ?P = 0 \<or> cols ?P = 0 \<or> cols ?Q = 0)"
      using ok(4-6) d(4-7) by blast
    note c = zero_size_kernels [where P = ?P and Q = ?Q and R = ?R and e = quiet_env
               and cfg = "\<lparr>nt = 4, tile = 16\<rparr>", THEN conjunct2, THEN conjunct1, THEN mp, OF h]
    have "mm_mt_chk quiet_env (Some ?P) (Some ?Q) (Some ?R) \<lparr>nt = 4, tile = 16\<rparr>
          = Some (mm_mt quiet_env (Some ?P) (Some ?Q) (Some ?R) \<lparr>nt = 4, tile = 16\<rparr>)"
      and "fst (mm_mt quiet_env (Some ?P) (Some ?Q) (Some ?R) \<lparr>nt = 4, tile = 16\<rparr>) = 0"
      and "snd (mm_mt quiet_env (Some ?P) (Some ?Q) (Some ?R) \<lparr>nt = 4, tile = 16\<rparr>) = Some ?R"
      using c d(7) e(1,2) by blast+
    then show ?thesis by (simp add: prod_eq_iff)
  qed
  have mm': "mm_mt_chk quiet_env (Some ?P') (Some ?P) (Some ?R') \<lparr>nt = 3, tile = 16\<rparr>
             = Some (0, Some (mat_of 2 2 [0, 0, 0, 0]))"
  proof -
    have h: "mat_ok ?P' \<and> mat_ok ?P \<and> mat_ok ?R' \<and> cols ?P' = rows ?P \<and> rows ?R' = rows ?P' \<and>
             cols ?R' = cols ?P \<and> (rows ?P' = 0 \<or> cols ?P' = 0 \<or> cols ?P = 0)"
      using ok(4,7,8) d(8-11) by blast
    note c = zero_size_kernels [where P = ?P' and Q = ?P and R = ?R' and e = quiet_env
               and cfg = "\<lparr>nt = 3, tile = 16\<rparr>", THEN conjunct2, THEN conjunct1, THEN mp, OF h]
    have "mm_mt_chk quiet_env (Some ?P') (Some ?P) (Some ?R') \<lparr>nt = 3, tile = 16\<rparr>
          = Some (mm_mt quiet_env (Some ?P') (Some ?P) (Some ?R') \<lparr>nt = 3, tile = 16\<rparr>)"
      and "fst (mm_mt quiet_env (Some ?P') (Some ?P) (Some ?R') \<lparr>nt = 3, tile = 16\<rparr>) = 0"
      and "snd (mm_mt quiet_env (Some ?P') (Some ?P) (Some ?R') \<lparr>nt = 3, tile = 16\<rparr>)
           = Some (?R'\<lparr>Mat.data := Some (replicate (unat (rows ?R') * unat (cols ?R')) 0)\<rparr>)"
      using c e(1,2) by blast+
    then show ?thesis by (simp add: prod_eq_iff mat_of_def r4)
  qed
  have dt: "dt_mt_chk quiet_env (Some ?n) (Some ?n) (Some (7 :: real)) 4 = Some (0, Some 0)"
    and ax: "ax_mt_chk quiet_env (2 :: real) (Some ?n) (Some ?n) 4 = Some (0, Some ?n)"
  proof -
    have h: "vec_ok ?n \<and> vec_ok ?n \<and> len ?n = len ?n \<and> len ?n = 0"
      using ok(2) d(12) by blast
    note c = zero_size_kernels [where u = ?n and v = ?n and e = quiet_env and ?out0.0 = 7
               and ntv = 4 and a = 2, THEN conjunct2, THEN conjunct2, THEN conjunct1, THEN mp,
               OF h]
    have "dt_mt_chk quiet_env (Some ?n) (Some ?n) (Some (7 :: real)) 4
          = Some (dt_mt quiet_env (Some ?n) (Some ?n) (Some 7) 4)"
      and "dt_mt quiet_env (Some ?n) (Some ?n) (Some (7 :: real)) 4 = (0, Some 0)"
      and "ax_mt_chk quiet_env (2 :: real) (Some ?n) (Some ?n) 4
          = Some (ax_mt quiet_env 2 (Some ?n) (Some ?n) 4)"
      and "fst (ax_mt quiet_env (2 :: real) (Some ?n) (Some ?n) 4) = 0"
      and "snd (ax_mt quiet_env (2 :: real) (Some ?n) (Some ?n) 4) = Some ?n"
      using c e(1,2) z by blast+
    then show "dt_mt_chk quiet_env (Some ?n) (Some ?n) (Some (7 :: real)) 4 = Some (0, Some 0)"
      and "ax_mt_chk quiet_env (2 :: real) (Some ?n) (Some ?n) 4 = Some (0, Some ?n)"
      by (simp_all add: prod_eq_iff)
  qed
  have nb: "Mat.data (m_alloc True 0 5 :: real Mat) = None" "Vec.data ?V = None"
  proof -
    have h: "(0 :: size_t) = 0 \<or> (5 :: size_t) = 0" by simp
    show "Mat.data (m_alloc True 0 5 :: real Mat) = None"
      by (rule zero_size_kernels [where r = 0 and c = 5 and ok = True,
                 THEN conjunct2, THEN conjunct2, THEN conjunct2, THEN conjunct1, THEN mp, OF h])
    show "Vec.data ?V = None"
      by (rule zero_size_kernels [where ok = True,
                 THEN conjunct2, THEN conjunct2, THEN conjunct2, THEN conjunct2, THEN conjunct1])
  qed
  have al1: "mv_mt_chk quiet_env (Some (m_alloc True 0 5)) (Some (vec_of [1, 2, 3, 4, 5 :: real]))
              (Some ?V) \<lparr>nt = 1, tile = 0\<rparr>
            = Some (- 1, Some ?V)"
  proof -
    have h: "((0 :: size_t) = 0 \<or> (5 :: size_t) = 0) \<and>
             (Some (m_alloc True 0 5 :: real Mat) = Some (m_alloc True 0 5) \<or>
              Some (vec_of [1, 2, 3, 4, 5 :: real]) = Some (v_alloc True 0) \<or>
              Some ?V = Some (v_alloc True 0))"
      by simp
    show ?thesis
      by (rule zero_size_kernels [where r = 0 and c = 5 and ok = True and e = quiet_env
                 and Ap = "Some (m_alloc True 0 5)" and xp = "Some (vec_of [1, 2, 3, 4, 5 :: real])"
                 and yp = "Some ?V" and cfg = "\<lparr>nt = 1, tile = 0\<rparr>",
                 THEN conjunct2, THEN conjunct2, THEN conjunct2, THEN conjunct2, THEN conjunct2,
                 THEN conjunct1, THEN mp, OF h, THEN conjunct2])
  qed
  have al2: "mm_mt_chk quiet_env (Some ?Q) (Some (m_alloc True 3 0)) (Some (m_alloc True 2 0))
              \<lparr>nt = 1, tile = 0\<rparr>
            = Some (- 1, Some (m_alloc True 2 0))"
  proof -
    have h: "((3 :: size_t) = 0 \<or> (0 :: size_t) = 0) \<and>
             (Some ?Q = Some (m_alloc True 3 0) \<or>
              Some (m_alloc True 3 0 :: real Mat) = Some (m_alloc True 3 0) \<or>
              Some (m_alloc True 2 0 :: real Mat) = Some (m_alloc True 3 0))"
      by simp
    show ?thesis
      by (rule zero_size_kernels [where r = 3 and c = 0 and ok = True and e = quiet_env
                 and Pp = "Some ?Q" and Qp = "Some (m_alloc True 3 0)"
                 and Rp = "Some (m_alloc True 2 0)" and cfg = "\<lparr>nt = 1, tile = 0\<rparr>",
                 THEN conjunct2, THEN conjunct2, THEN conjunct2, THEN conjunct2, THEN conjunct2,
                 THEN conjunct2, THEN conjunct1, THEN mp, OF h, THEN conjunct2])
  qed
  have al3: "dt_mt_chk quiet_env (Some ?V) (Some ?V) (Some (7 :: real)) 1 = Some (- 1, Some 7)"
    and al4: "ax_mt_chk quiet_env (2 :: real) (Some ?V) (Some ?V) 1 = Some (- 1, Some ?V)"
  proof -
    have h: "Some ?V = Some (v_alloc True 0) \<or> Some ?V = Some (v_alloc True 0)" by simp
    note c = zero_size_kernels [where ok = True and e = quiet_env and up = "Some ?V"
               and vp = "Some ?V" and outp = "Some 7" and ntv = 1 and a = 2,
               THEN conjunct2, THEN conjunct2, THEN conjunct2, THEN conjunct2, THEN conjunct2,
               THEN conjunct2, THEN conjunct2, THEN mp, OF h]
    show "dt_mt_chk quiet_env (Some ?V) (Some ?V) (Some (7 :: real)) 1 = Some (- 1, Some 7)"
      and "ax_mt_chk quiet_env (2 :: real) (Some ?V) (Some ?V) 1 = Some (- 1, Some ?V)"
      using c by blast+
  qed
  show ?thesis
    using ok d e z mv mm mm' dt ax nb al1 al2 al3 al4 by simp
qed

section \<open>Allocation\<close>

text \<open>
  A buffer that \<open>m_alloc\<close> or \<open>v_alloc\<close> returns is zero-filled, and has \<open>r * c\<close>
  elements when that product fits 64 bits.
\<close>

lemma alloc_zero_filled:
  fixes r c n :: size_t
  shows "unat r * unat c < 2 ^ 64 \<Longrightarrow> Mat.data (m_alloc ok r c :: ('a::zero) Mat) = Some b
         \<Longrightarrow> b = replicate (unat r * unat c) 0"
    and "Vec.data (v_alloc ok n :: ('a::zero) Vec) = Some b' \<Longrightarrow> b' = replicate (unat n) 0"
proof -
  assume no: "unat r * unat c < 2 ^ 64" and d: "Mat.data (m_alloc ok r c :: 'a Mat) = Some b"
  have "unat (r * c) = unat r * unat c"
    using no unat_mult_lem [of r c] by simp
  then show "b = replicate (unat r * unat c) 0"
    using d by (auto simp: m_alloc_def calloc_def Let_def split: if_splits)
next
  assume "Vec.data (v_alloc ok n :: 'a Vec) = Some b'"
  then show "b' = replicate (unat n) 0"
    by (auto simp: v_alloc_def calloc_def Let_def split: if_splits)
qed

text \<open>
  Claim C9, as it is stated, fails: \<open>m_alloc(0, 5)\<close> returns a matrix without a buffer
  whose column count is 5, not 0.
\<close>

theorem alloc_invariant_counterexample:
  "Mat.data (m_alloc True 0 5 :: real Mat) = None \<and> cols (m_alloc True 0 5 :: real Mat) = 5"
  by (simp add: m_alloc_def Let_def)

text \<open>
  Claim C9, amended. For \<open>r * c < 2^64\<close>, the matrix \<open>m_alloc(r, c)\<close> either has its
  buffer, of length exactly \<open>rows * cols\<close>, or has no buffer and then \<open>rows = 0\<close> or
  \<open>cols = 0\<close>. The vector \<open>v_alloc(n)\<close> either has its buffer, of length exactly \<open>len\<close>, or
  has no buffer and \<open>len = 0\<close>.
\<close>

theorem alloc_invariant:
  fixes r c n :: size_t
  assumes "unat r * unat c < 2 ^ 64"
  shows "(case Mat.data (m_alloc ok r c :: ('a::zero) Mat) of
            Some b \<Rightarrow> length b = unat (rows (m_alloc ok r c :: 'a Mat)) * unat (cols (m_alloc ok r c :: 'a Mat))
          | None \<Rightarrow> rows (m_alloc ok r c :: 'a Mat) = 0 \<or> cols (m_alloc ok r c :: 'a Mat) = 0) \<and>
         (case Vec.data (v_alloc ok' n :: 'a Vec) of
            Some b \<Rightarrow> length b = unat (len (v_alloc ok' n :: 'a Vec))
          | None \<Rightarrow> len (v_alloc ok' n :: 'a Vec) = 0)"
proof -
  have "unat (r * c) = unat r * unat c"
    using assms unat_mult_lem [of r c] by simp
  then show ?thesis
    by (simp add: m_alloc_def v_alloc_def calloc_def Let_def)
qed

theorem alloc_invariant_witness:
  "unat (2 :: size_t) * unat (3 :: size_t) < 2 ^ 64 \<and>
   (m_alloc True 2 3 :: real Mat) = mat_of 2 3 (replicate 6 0) \<and>
   (m_alloc False 2 3 :: real Mat) = \<lparr>rows = 0, cols = 0, data = None\<rparr> \<and>
   (v_alloc True 2 :: real Vec) = vec_of (replicate 2 0) \<and>
   (case Mat.data (m_alloc True 2 3 :: real Mat) of
      Some b \<Rightarrow> length b = unat (rows (m_alloc True 2 3 :: real Mat)) * unat (cols (m_alloc True 2 3 :: real Mat))
    | None \<Rightarrow> rows (m_alloc True 2 3 :: real Mat) = 0 \<or> cols (m_alloc True 2 3 :: real Mat) = 0)"
proof -
  have h: "unat (2 :: size_t) * unat (3 :: size_t) < 2 ^ 64" by simp
  have "(case Mat.data (m_alloc True 2 3 :: real Mat) of
      Some b \<Rightarrow> length b = unat (rows (m_alloc True 2 3 :: real Mat)) * unat (cols (m_alloc True 2 3 :: real Mat))
    | None \<Rightarrow> rows (m_alloc True 2 3 :: real Mat) = 0 \<or> cols (m_alloc True 2 3 :: real Mat) = 0)"
    using alloc_invariant [OF h, of True True 0, where 'a = real] by blast
  moreover have "(m_alloc True 2 3 :: real Mat) = mat_of 2 3 (replicate 6 0)"
    "(m_alloc False 2 3 :: real Mat) = \<lparr>rows = 0, cols = 0, data = None\<rparr>"
    "(v_alloc True 2 :: real Vec) = vec_of (replicate 2 0)"
    by (simp_all add: m_alloc_def v_alloc_def calloc_def Let_def mat_of_def vec_of_def)
  ultimately show ?thesis using h by blast
qed

text \<open>
  Claim C10. The claim is that a successful \<open>m_alloc(r, c)\<close> with \<open>r, c \<ge> 1\<close> returns a
  buffer of \<open>r * c\<close> elements, all 0. \<open>m_alloc\<close> multiplies \<open>r * c\<close> in \<open>size_t\<close> before it
  calls \<^verbatim>\<open>calloc\<close>, so a product that wraps passes the overflow check of
  \<^verbatim>\<open>calloc\<close>: for \<open>r = 2^63 + 1\<close> and \<open>c = 2\<close> the call succeeds with \<open>rows = 2^63 + 1\<close>,
  \<open>cols = 2\<close> and a buffer of two elements.
\<close>

theorem m_alloc_overflow:
  "(m_alloc True 9223372036854775809 2 :: real Mat)
   = \<lparr>rows = 9223372036854775809, cols = 2, data = Some [0, 0]\<rparr>"
proof -
  have wrap: "(9223372036854775809 :: size_t) * 2 = 2" by simp
  have two: "replicate 2 (0 :: real) = [0, 0]" by (simp add: numeral_2_eq_2)
  show ?thesis
    by (simp add: m_alloc_def calloc_def Let_def wrap two)
qed

theorem m_alloc_overflow_witness:
  "Mat.data (m_alloc True 9223372036854775809 2 :: real Mat) = Some [0, 0] \<and>
   length [0, 0 :: real] \<noteq> unat (9223372036854775809 :: size_t) * unat (2 :: size_t)"
  using m_alloc_overflow by simp

section \<open>Workers do not interfere\<close>

lemma only_onD:
  assumes "only_on S f"
  shows "length (f c) = length c"
    and "p < length c \<Longrightarrow> p \<notin> S \<Longrightarrow> f c ! p = c ! p"
    and "length c' = length c \<Longrightarrow> (\<And>q. q \<in> S \<Longrightarrow> q < length c \<Longrightarrow> c' ! q = c ! q)
         \<Longrightarrow> p \<in> S \<Longrightarrow> p < length c \<Longrightarrow> f c' ! p = f c ! p"
  using assms unfolding only_on_def by blast+

lemma only_onI:
  assumes "\<And>c. length (f c) = length c"
    and "\<And>c p. p < length c \<Longrightarrow> p \<notin> S \<Longrightarrow> f c ! p = c ! p"
    and "\<And>c c' p. length c' = length c \<Longrightarrow> (\<And>q. q \<in> S \<Longrightarrow> q < length c \<Longrightarrow> c' ! q = c ! q)
           \<Longrightarrow> p \<in> S \<Longrightarrow> p < length c \<Longrightarrow> f c' ! p = f c ! p"
  shows "only_on S f"
  unfolding only_on_def using assms by blast

lemma only_on_id: "only_on S (\<lambda>c. c)"
  by (rule only_onI) simp_all

lemma only_on_update:
  assumes "p \<in> S"
  shows "only_on S (\<lambda>c. c[p := h (c ! p)])"
proof (rule only_onI)
  fix c :: "'a list"
  show "length (c[p := h (c ! p)]) = length c" by simp
next
  fix c :: "'a list" and q
  assume "q < length c" "q \<notin> S"
  then have "q \<noteq> p" using assms by blast
  then show "c[p := h (c ! p)] ! q = c ! q" by simp
next
  fix c c' :: "'a list" and q
  assume len: "length c' = length c"
    and agree: "\<And>q. q \<in> S \<Longrightarrow> q < length c \<Longrightarrow> c' ! q = c ! q"
    and q: "q \<in> S" "q < length c"
  show "c'[p := h (c' ! p)] ! q = c[p := h (c ! p)] ! q"
  proof (cases "q = p")
    case True
    then show ?thesis using len q agree [OF assms] by simp
  next
    case False
    then show ?thesis using agree [OF q] by simp
  qed
qed

lemma only_on_comp:
  assumes f: "only_on S f" and g: "only_on S g"
  shows "only_on S (\<lambda>c. g (f c))"
proof (rule only_onI)
  fix c :: "'a list"
  show "length (g (f c)) = length c"
    by (simp add: only_onD(1) [OF g] only_onD(1) [OF f])
next
  fix c :: "'a list" and p
  assume "p < length c" "p \<notin> S"
  then show "g (f c) ! p = c ! p"
    by (simp add: only_onD(2) [OF g] only_onD(2) [OF f] only_onD(1) [OF f])
next
  fix c c' :: "'a list" and p
  assume len: "length c' = length c"
    and agree: "\<And>q. q \<in> S \<Longrightarrow> q < length c \<Longrightarrow> c' ! q = c ! q"
    and p: "p \<in> S" "p < length c"
  have lf: "length (f c') = length (f c)"
    by (simp add: only_onD(1) [OF f] len)
  have "f c' ! q = f c ! q" if "q \<in> S" "q < length (f c)" for q
    using only_onD(3) [OF f len agree, of q] that by (simp add: only_onD(1) [OF f])
  then show "g (f c') ! p = g (f c) ! p"
    using only_onD(3) [OF g lf, of p] p by (simp add: only_onD(1) [OF f])
qed

lemma only_on_fold:
  "(\<And>x. x \<in> set xs \<Longrightarrow> only_on S (F x)) \<Longrightarrow> only_on S (fold F xs)"
proof (induction xs)
  case Nil
  then show ?case by (simp add: id_def only_on_id)
next
  case (Cons x xs)
  have "only_on S (\<lambda>c. fold F xs (F x c))"
    by (rule only_on_comp) (simp_all add: Cons)
  then show ?case by (simp add: comp_def)
qed

lemma only_on_mono:
  assumes f: "only_on S f" and sub: "S \<subseteq> S'"
  shows "only_on S' f"
proof (rule only_onI)
  fix c :: "'a list"
  show "length (f c) = length c" by (rule only_onD(1) [OF f])
next
  fix c :: "'a list" and p
  assume "p < length c" "p \<notin> S'"
  then show "f c ! p = c ! p" using sub by (intro only_onD(2) [OF f]) auto
next
  fix c c' :: "'a list" and p
  assume len: "length c' = length c"
    and agree: "\<And>q. q \<in> S' \<Longrightarrow> q < length c \<Longrightarrow> c' ! q = c ! q"
    and p: "p \<in> S'" "p < length c"
  show "f c' ! p = f c ! p"
  proof (cases "p \<in> S")
    case True
    show ?thesis
      by (rule only_onD(3) [OF f len _ True p(2)]) (use agree sub in auto)
  next
    case False
    have "f c' ! p = c' ! p" using only_onD(2) [OF f, of p c'] False p len by simp
    moreover have "f c ! p = c ! p" using only_onD(2) [OF f, of p c] False p by simp
    ultimately show ?thesis using agree [OF p] by simp
  qed
qed

lemma only_on_commute:
  assumes f: "only_on S f" and g: "only_on S' g" and disj: "S \<inter> S' = {}"
  shows "f (g c) = g (f c)"
proof (rule nth_equalityI)
  show "length (f (g c)) = length (g (f c))"
    by (simp add: only_onD(1) [OF f] only_onD(1) [OF g])
next
  fix p
  assume "p < length (f (g c))"
  then have p: "p < length c" by (simp add: only_onD(1) [OF f] only_onD(1) [OF g])
  have lg: "length (g c) = length c" and lf: "length (f c) = length c"
    by (simp_all add: only_onD(1) [OF f] only_onD(1) [OF g])
  show "f (g c) ! p = g (f c) ! p"
  proof (cases "p \<in> S")
    case True
    then have nS': "p \<notin> S'" using disj by auto
    have "f (g c) ! p = f c ! p"
    proof (rule only_onD(3) [OF f lg _ True p])
      fix q assume "q \<in> S" "q < length c"
      then show "g c ! q = c ! q" using disj by (intro only_onD(2) [OF g]) auto
    qed
    moreover have "g (f c) ! p = f c ! p"
      using only_onD(2) [OF g, of p "f c"] nS' p lf by simp
    ultimately show ?thesis by simp
  next
    case False
    have a: "f (g c) ! p = g c ! p"
      using only_onD(2) [OF f, of p "g c"] False p lg by simp
    show ?thesis
    proof (cases "p \<in> S'")
      case True
      have "g (f c) ! p = g c ! p"
      proof (rule only_onD(3) [OF g lf _ True p])
        fix q assume "q \<in> S'" "q < length c"
        then show "f c ! q = c ! q" using disj by (intro only_onD(2) [OF f]) auto
      qed
      then show ?thesis using a by simp
    next
      case False
      have "g (f c) ! p = f c ! p"
        using only_onD(2) [OF g, of p "f c"] False p lf by simp
      moreover have "f c ! p = c ! p" using only_onD(2) [OF f, of p c] \<open>p \<notin> S\<close> p by simp
      moreover have "g c ! p = c ! p" using only_onD(2) [OF g, of p c] False p by simp
      ultimately show ?thesis using a by simp
    qed
  qed
qed

lemma only_on_for_loop:
  "(\<And>j. i \<le> j \<Longrightarrow> j < n \<Longrightarrow> only_on S (body j)) \<Longrightarrow> only_on S (for_loop body i n)"
  unfolding for_loop_fold [abs_def] by (rule only_on_fold) simp

lemma only_on_rows_loop:
  "(\<And>j. i \<le> j \<Longrightarrow> j < i1 \<Longrightarrow> only_on S (body j)) \<Longrightarrow> only_on S (rows_loop stop body i i1)"
proof (induction "i1 - i" arbitrary: i)
  case 0
  then have "rows_loop stop body i i1 = (\<lambda>s. s)"
    by (intro ext) (subst rows_loop.simps, simp)
  then show ?case by (simp add: only_on_id)
next
  case (Suc d)
  then have lt: "i < i1" by simp
  show ?case
  proof (cases "stop i")
    case True
    then have "rows_loop stop body i i1 = (\<lambda>s. s)"
      by (intro ext) (subst rows_loop.simps, simp)
    then show ?thesis by (simp add: only_on_id)
  next
    case False
    have eq: "rows_loop stop body i i1 = (\<lambda>s. rows_loop stop body (Suc i) i1 (body i s))"
      using lt False by (intro ext) (subst rows_loop.simps, simp)
    have "d = i1 - Suc i" using Suc.hyps(2) by simp
    then have g: "only_on S (rows_loop stop body (Suc i) i1)"
      using Suc.hyps(1) [of "Suc i"] Suc.prems by simp
    have f: "only_on S (body i)" using Suc.prems lt by simp
    show ?thesis unfolding eq by (rule only_on_comp [OF f g])
  qed
qed

lemma only_on_step_loop:
  "(\<And>j'. j \<le> j' \<Longrightarrow> j' < n \<Longrightarrow> only_on S (body j')) \<Longrightarrow> only_on S (step_loop T body j n)"
proof (induction "n - j" arbitrary: j rule: less_induct)
  case less
  show ?case
  proof (cases "j < n \<and> 0 < T")
    case True
    have eq: "step_loop T body j n = (\<lambda>s. step_loop T body (j + T) n (body j s))"
      using True by (intro ext) (subst step_loop.simps, simp)
    have "n - (j + T) < n - j" using True by arith
    then have g: "only_on S (step_loop T body (j + T) n)"
      using less.hyps [of "j + T"] less.prems by simp
    have f: "only_on S (body j)" using less.prems True by simp
    show ?thesis unfolding eq by (rule only_on_comp [OF f g])
  next
    case False
    then have "step_loop T body j n = (\<lambda>s. s)"
      by (intro ext) (subst step_loop.simps, auto)
    then show ?thesis by (simp add: only_on_id)
  qed
qed

text \<open>The cells a worker owns: the rows of its range, \<open>w\<close> cells per row.\<close>

lemma block_disjoint:
  assumes pos: "0 <s ntw" and t: "t < nat (sint ntw)" and u: "u < nat (sint ntw)" and ne: "t \<noteq> u"
  shows "{range_lo R ntw t * w..<range_hi R ntw t * w} \<inter> {range_lo R ntw u * w..<range_hi R ntw u * w} = {}"
proof -
  have asc: "range_hi R ntw a * w \<le> range_lo R ntw b * w"
    if "a < b" "a < nat (sint ntw)" "b < nat (sint ntw)" for a b
  proof -
    have "range_hi R ntw a \<le> range_lo R ntw b"
      using range_hi_boundary [OF pos that(2)] range_lo_boundary [OF pos that(3)]
        boundary_mono [of "Suc a" b "unat R" "nat (sint ntw)"] that(1) by simp
    then show ?thesis by (rule mult_le_mono1)
  qed
  show ?thesis
  proof (cases "t < u")
    case True
    then show ?thesis using asc [OF True t u] by auto
  next
    case False
    then have "u < t" using ne by simp
    then show ?thesis using asc [OF \<open>u < t\<close> u t] by auto
  qed
qed

lemma mv_worker_only_on:
  "only_on {range_lo (rows A) ntw t..<range_hi (rows A) ntw t}
     (mv_worker stop A x (word_of_nat t) ntw)"
proof -
  have "only_on {range_lo (rows A) ntw t..<range_hi (rows A) ntw t}
          (rows_loop stop (\<lambda>i yb. yb[i := mv_row (the (Mat.data A)) (the (Vec.data x)) (unat (cols A)) i])
             (range_lo (rows A) ntw t) (range_hi (rows A) ntw t))"
    by (rule only_on_rows_loop) (rule only_on_update, simp)
  moreover have "mv_worker stop A x (word_of_nat t) ntw
        = rows_loop stop (\<lambda>i yb. yb[i := mv_row (the (Mat.data A)) (the (Vec.data x)) (unat (cols A)) i])
             (range_lo (rows A) ntw t) (range_hi (rows A) ntw t)"
    by (rule ext) (rule mv_worker_range)
  ultimately show ?thesis by simp
qed

lemma ax_worker_only_on:
  "only_on {range_lo (len x) ntw t..<range_hi (len x) ntw t}
     (ax_worker stop a x (word_of_nat t) ntw)"
proof -
  have "only_on {range_lo (len x) ntw t..<range_hi (len x) ntw t}
          (rows_loop stop (\<lambda>i yb. yb[i := a * the (Vec.data x) ! i + yb ! i])
             (range_lo (len x) ntw t) (range_hi (len x) ntw t))"
    by (rule only_on_rows_loop) (rule only_on_update, simp)
  moreover have "ax_worker stop a x (word_of_nat t) ntw
        = rows_loop stop (\<lambda>i yb. yb[i := a * the (Vec.data x) ! i + yb ! i])
             (range_lo (len x) ntw t) (range_hi (len x) ntw t)"
    by (rule ext) (rule ax_worker_range)
  ultimately show ?thesis by simp
qed

lemma mm_axpy_only_on:
  assumes "j1 \<le> N"
  shows "only_on {i * N..<i * N + N} (mm_axpy a b K N i k j0 j1)"
proof -
  have "only_on {i * N..<i * N + N}
          (for_loop (\<lambda>col c. c[i * N + col := c ! (i * N + col) + a ! (i * K + k) * b ! (k * N + col)]) j0 j1)"
  proof (rule only_on_for_loop)
    fix col assume "col < j1"
    then have "i * N + col \<in> {i * N..<i * N + N}" using assms by simp
    then show "only_on {i * N..<i * N + N}
                 (\<lambda>c. c[i * N + col := c ! (i * N + col) + a ! (i * K + k) * b ! (k * N + col)])"
      by (rule only_on_update [where h = "\<lambda>v. v + a ! (i * K + k) * b ! (k * N + col)"])
  qed
  moreover have "mm_axpy a b K N i k j0 j1
        = for_loop (\<lambda>col c. c[i * N + col := c ! (i * N + col) + a ! (i * K + k) * b ! (k * N + col)]) j0 j1"
    by (rule ext) (simp add: mm_axpy_def Let_def)
  ultimately show ?thesis by simp
qed

lemma mm_row_plain_only_on: "only_on {i * N..<i * N + N} (mm_row_plain a b K N i)"
proof -
  have "only_on {i * N..<i * N + N} (for_loop (\<lambda>k. mm_axpy a b K N i k 0 N) 0 K)"
    by (rule only_on_for_loop) (rule mm_axpy_only_on, simp)
  moreover have "mm_row_plain a b K N i = for_loop (\<lambda>k. mm_axpy a b K N i k 0 N) 0 K"
    by (rule ext) (simp add: mm_row_plain_def)
  ultimately show ?thesis by simp
qed

lemma mm_row_tiled_only_on: "only_on {i * N..<i * N + N} (mm_row_tiled a b K N T i)"
proof -
  have "only_on {i * N..<i * N + N}
          (step_loop T
             (\<lambda>jj. step_loop T
                (\<lambda>kk. for_loop (\<lambda>k. mm_axpy a b K N i k jj (min_sz (jj + T) N)) kk (min_sz (kk + T) K))
                0 K)
             0 N)"
    by (intro only_on_step_loop only_on_for_loop mm_axpy_only_on) (simp add: min_sz_def)
  moreover have "mm_row_tiled a b K N T i
        = step_loop T
             (\<lambda>jj. step_loop T
                (\<lambda>kk. for_loop (\<lambda>k. mm_axpy a b K N i k jj (min_sz (jj + T) N)) kk (min_sz (kk + T) K))
                0 K)
             0 N"
    by (rule ext) (simp add: mm_row_tiled_def Let_def)
  ultimately show ?thesis by simp
qed

lemma row_in_block:
  fixes i lo hi N :: nat
  assumes "lo \<le> i" and "i < hi"
  shows "{i * N..<i * N + N} \<subseteq> {lo * N..<hi * N}"
proof -
  have "lo * N \<le> i * N" using assms(1) by (rule mult_le_mono1)
  moreover have "Suc i * N \<le> hi * N" using assms(2) by (intro mult_le_mono1) simp
  ultimately show ?thesis by auto
qed

lemma mm_worker_only_on:
  "only_on {range_lo (rows A) ntw t * unat (cols B)..<range_hi (rows A) ntw t * unat (cols B)}
     (mm_worker stop A B (word_of_nat t) ntw tw)"
proof (cases "tw \<le>s 0")
  case True
  have "only_on {range_lo (rows A) ntw t * unat (cols B)..<range_hi (rows A) ntw t * unat (cols B)}
          (rows_loop stop (mm_row_plain (the (Mat.data A)) (the (Mat.data B)) (unat (cols A)) (unat (cols B)))
             (range_lo (rows A) ntw t) (range_hi (rows A) ntw t))"
  proof (rule only_on_rows_loop)
    fix j assume "range_lo (rows A) ntw t \<le> j" "j < range_hi (rows A) ntw t"
    then show "only_on {range_lo (rows A) ntw t * unat (cols B)..<range_hi (rows A) ntw t * unat (cols B)}
                 (mm_row_plain (the (Mat.data A)) (the (Mat.data B)) (unat (cols A)) (unat (cols B)) j)"
      by (intro only_on_mono [OF mm_row_plain_only_on] row_in_block)
  qed
  then show ?thesis using True by (simp add: mm_worker_range)
next
  case False
  have "only_on {range_lo (rows A) ntw t * unat (cols B)..<range_hi (rows A) ntw t * unat (cols B)}
          (rows_loop stop
             (mm_row_tiled (the (Mat.data A)) (the (Mat.data B)) (unat (cols A)) (unat (cols B))
                (unat (scast tw :: size_t)))
             (range_lo (rows A) ntw t) (range_hi (rows A) ntw t))"
  proof (rule only_on_rows_loop)
    fix j assume "range_lo (rows A) ntw t \<le> j" "j < range_hi (rows A) ntw t"
    then show "only_on {range_lo (rows A) ntw t * unat (cols B)..<range_hi (rows A) ntw t * unat (cols B)}
                 (mm_row_tiled (the (Mat.data A)) (the (Mat.data B)) (unat (cols A)) (unat (cols B))
                    (unat (scast tw :: size_t)) j)"
      by (intro only_on_mono [OF mm_row_tiled_only_on] row_in_block)
  qed
  then show ?thesis using False by (simp add: mm_worker_range)
qed

lemma run_workers_any_order:
  assumes own: "\<And>t. t < started \<Longrightarrow> only_on (S t) (w t)"
    and disj: "\<And>t u. t < started \<Longrightarrow> u < started \<Longrightarrow> t \<noteq> u \<Longrightarrow> S t \<inter> S u = {}"
    and perm: "mset ts = mset [0..<started]"
  shows "fold w ts s = run_workers w started s"
proof -
  have "fold w [0..<started] = fold w ts"
  proof (rule fold_multiset_equiv)
    fix t u
    assume "t \<in> set [0..<started]" "u \<in> set [0..<started]"
    then have t: "t < started" and u: "u < started" by simp_all
    show "w t \<circ> w u = w u \<circ> w t"
    proof (cases "t = u")
      case True
      then show ?thesis by simp
    next
      case False
      show ?thesis
        by (rule ext) (simp add: only_on_commute [OF own [OF t] own [OF u] disj [OF t u False]])
    qed
  next
    show "mset [0..<started] = mset ts" using perm by simp
  qed
  then show ?thesis by (simp add: run_workers_def)
qed

text \<open>
  The order in which the started workers of a call run does not matter: a run in any
  order \<open>ts\<close> of the worker indices leaves the buffer of the run in index order.
\<close>

lemma workers_any_order:
  assumes pos: "0 <s ntw" and st: "started \<le> nat (sint ntw)"
    and perm: "mset ts = mset [0..<started]"
  shows "fold (\<lambda>t. mv_worker (stop t) A x (word_of_nat t) ntw) ts yb
         = run_workers (\<lambda>t. mv_worker (stop t) A x (word_of_nat t) ntw) started yb"
    and "fold (\<lambda>t. ax_worker (stop t) a v (word_of_nat t) ntw) ts yb
         = run_workers (\<lambda>t. ax_worker (stop t) a v (word_of_nat t) ntw) started yb"
    and "fold (\<lambda>t. mm_worker (stop t) A B (word_of_nat t) ntw tw) ts cb
         = run_workers (\<lambda>t. mm_worker (stop t) A B (word_of_nat t) ntw tw) started cb"
proof -
  have d: "{range_lo R ntw t * w..<range_hi R ntw t * w} \<inter> {range_lo R ntw u * w..<range_hi R ntw u * w} = {}"
    if "t < started" "u < started" "t \<noteq> u" for t u R w
    using that st by (intro block_disjoint [OF pos]) simp_all
  have d1: "{range_lo R ntw t..<range_hi R ntw t} \<inter> {range_lo R ntw u..<range_hi R ntw u} = {}"
    if "t < started" "u < started" "t \<noteq> u" for t u R
    using d [OF that, of R 1] by simp
  show "fold (\<lambda>t. mv_worker (stop t) A x (word_of_nat t) ntw) ts yb
        = run_workers (\<lambda>t. mv_worker (stop t) A x (word_of_nat t) ntw) started yb"
    by (rule run_workers_any_order
          [where S = "\<lambda>t. {range_lo (rows A) ntw t..<range_hi (rows A) ntw t}", OF _ _ perm])
       (rule mv_worker_only_on, rule d1)
  show "fold (\<lambda>t. ax_worker (stop t) a v (word_of_nat t) ntw) ts yb
        = run_workers (\<lambda>t. ax_worker (stop t) a v (word_of_nat t) ntw) started yb"
    by (rule run_workers_any_order
          [where S = "\<lambda>t. {range_lo (len v) ntw t..<range_hi (len v) ntw t}", OF _ _ perm])
       (rule ax_worker_only_on, rule d1)
  show "fold (\<lambda>t. mm_worker (stop t) A B (word_of_nat t) ntw tw) ts cb
        = run_workers (\<lambda>t. mm_worker (stop t) A B (word_of_nat t) ntw tw) started cb"
    by (rule run_workers_any_order
          [where S = "\<lambda>t. {range_lo (rows A) ntw t * unat (cols B)..<range_hi (rows A) ntw t * unat (cols B)}",
            OF _ _ perm])
       (rule mm_worker_only_on, rule d)
qed

section \<open>Index arithmetic stays inside 64 bits\<close>

text \<open>
  The loops above count and index with natural numbers. For a buffer that \<open>mat_ok\<close>
  describes, every index \<open>i * cols + k\<close> of a cell is below \<open>2^61\<close>, and a block start plus
  a tile edge (a positive \<open>int\<close>) is below \<open>2^64\<close> whenever a row is processed at all: the
  \<open>size_t\<close> arithmetic of the source does not wrap there.
\<close>

lemma index_fits:
  assumes "mat_ok M" and "i < unat (rows M)" and "k < unat (cols M)"
  shows "8 * (i * unat (cols M) + k) < 2 ^ 64"
proof -
  obtain c where "Mat.data M = Some c"
    and len: "length c = unat (rows M) * unat (cols M)" and fit: "8 * length c < 2 ^ 64"
    using assms(1) by (rule mat_okD)
  have "Suc i * unat (cols M) \<le> unat (rows M) * unat (cols M)"
    using assms(2) by (intro mult_le_mono1) simp
  then have "i * unat (cols M) + k < length c"
    using assms(3) len by simp
  then show ?thesis using fit by simp
qed

lemma block_start_fits:
  fixes tw :: cint
  assumes "mat_ok M" and "i < unat (rows M)" and "jj < unat (cols M)" and "0 <s tw"
  shows "jj + unat (scast tw :: size_t) < 2 ^ 64"
proof -
  have "8 * (i * unat (cols M) + jj) < 2 ^ 64"
    by (rule index_fits [OF assms(1-3)])
  then have "jj < 2 ^ 61" by simp
  moreover have "unat (scast tw :: size_t) < 2 ^ 31"
    using unat_scast_pos [OF assms(4)] sint_pos_bounds(2) [OF assms(4)] by simp
  ultimately show ?thesis by simp
qed

end
